theory Spec2Isabelle
  imports Complex_Main "HOL-Library.Log_Nat"
begin

section \<open>Binary64 arithmetic\<close>

text \<open>
  A C \<open>double\<close> is modelled by the rational number it denotes. Every arithmetic
  operation computes the exact rational result and rounds it to the nearest number with a
  53-bit significand, ties to even (\<open>rnd\<close>). The exponent range is not bounded: all
  magnitudes that occur in the program lie between \<open>2 powi (- 500)\<close> and \<open>2 ^ 64\<close>,
  far inside the normal range of binary64, so neither overflow nor gradual underflow is
  modelled. Infinities and NaN do not exist in the model; the only operation that could
  produce one, a division by zero, is an error value.
\<close>

type_synonym double = real

definition expo :: "real \<Rightarrow> int" where
  "expo x = (if 1 \<le> x then bitlen \<lfloor>x\<rfloor> - 1 else - bitlen (\<lceil>1 / x\<rceil> - 1))"

definition rhe :: "real \<Rightarrow> int" where
  "rhe y = (let f = \<lfloor>y\<rfloor>; r = y - of_int f in
     if r < 1/2 then f else if 1/2 < r then f + 1 else if even f then f else f + 1)"

definition rnd :: "real \<Rightarrow> double" where
  "rnd x = (if x = 0 then 0 else
      let e = expo \<bar>x\<bar> - 52 in of_int (rhe (x / 2 powi e)) * 2 powi e)"

definition is_double :: "real \<Rightarrow> bool" where
  "is_double x \<longleftrightarrow> rnd x = x"

section \<open>Errors and C integers\<close>

text \<open>
  The model stops with an error value where the behaviour of the C++ program is undefined:
  an array access outside the array, a signed integer overflow (also in a conversion from
  double), a division by zero, and a data race between the worker threads.
\<close>

datatype error = OutOfBounds | IntOverflow | DivByZero | DataRace

definition ebind :: "error + 'a \<Rightarrow> ('a \<Rightarrow> error + 'b) \<Rightarrow> error + 'b" where
  "ebind m f = (case m of Inl e \<Rightarrow> Inl e | Inr x \<Rightarrow> f x)"

lemma ebind_cong [fundef_cong]:
  "m = m' \<Longrightarrow> (\<And>x. m' = Inr x \<Longrightarrow> f x = f' x) \<Longrightarrow> ebind m f = ebind m' f'"
  by (cases m') (simp_all add: ebind_def)

definition int_chk :: "int \<Rightarrow> error + int" where
  "int_chk x = (if - (2 ^ 31) \<le> x \<and> x \<le> 2 ^ 31 - 1 then Inr x else Inl IntOverflow)"

definition c_div2 :: "int \<Rightarrow> int" where
  "c_div2 t = (if 0 \<le> t then t div 2 else - ((- t) div 2))"

definition c_trunc :: "double \<Rightarrow> int" where
  "c_trunc x = (if 0 \<le> x then \<lfloor>x\<rfloor> else \<lceil>x\<rceil>)"

definition i2d :: "int \<Rightarrow> double" where
  "i2d z = of_int z"

definition d2i :: "double \<Rightarrow> error + int" where
  "d2i x = int_chk (c_trunc x)"

definition dadd :: "double \<Rightarrow> double \<Rightarrow> double" where
  "dadd x y = rnd (x + y)"

definition dsub :: "double \<Rightarrow> double \<Rightarrow> double" where
  "dsub x y = rnd (x - y)"

definition dmul :: "double \<Rightarrow> double \<Rightarrow> double" where
  "dmul x y = rnd (x * y)"

definition ddiv :: "double \<Rightarrow> double \<Rightarrow> error + double" where
  "ddiv x y = (if y = 0 then Inl DivByZero else Inr (rnd (x / y)))"

definition c_floor :: "double \<Rightarrow> double" where
  "c_floor x = of_int \<lfloor>x\<rfloor>"

definition c_pow16 :: "int \<Rightarrow> double" where
  "c_pow16 n = rnd (16 powi n)"

definition c_1e17 :: double where
  "c_1e17 = rnd (1 / 10 ^ 17)"

section \<open>expoMod\<close>

record expo_state =
  init :: bool
  pwrtbl :: "int list"
  highestpwrtblpwr :: int

definition fresh_state :: "nat \<Rightarrow> expo_state" where
  "fresh_state len = \<lparr>init = False, pwrtbl = replicate len 0, highestpwrtblpwr = 0\<rparr>"

definition rd :: "int list \<Rightarrow> int \<Rightarrow> error + int" where
  "rd tbl i = (if 0 \<le> i \<and> i < int (length tbl) then Inr (tbl ! nat i) else Inl OutOfBounds)"

definition wr :: "int list \<Rightarrow> int \<Rightarrow> int \<Rightarrow> error + int list" where
  "wr tbl i v = (if 0 \<le> i \<and> i < int (length tbl) then Inr (tbl[nat i := v]) else Inl OutOfBounds)"

lemma wr_length: "wr tbl i v = Inr tbl' \<Longrightarrow> length tbl' = length tbl"
  by (auto simp: wr_def split: if_splits)

function build_tbl :: "int list \<Rightarrow> int \<Rightarrow> double \<Rightarrow> error + (int list \<times> int)" where
  "build_tbl tbl h n =
     ebind (rd tbl h) (\<lambda>v.
       if i2d v < n then
         ebind (int_chk (v * 2)) (\<lambda>v2.
         ebind (wr tbl (h + 1) v2) (\<lambda>tbl'.
           build_tbl tbl' (h + 1) n))
       else Inr (tbl, h))"
  by pat_completeness auto
termination
  by (relation "measure (\<lambda>(tbl, h, n). nat (int (length tbl) - h))")
     (auto simp: wr_def rd_def split: if_splits)

declare build_tbl.simps [simp del]

definition init_table :: "expo_state \<Rightarrow> double \<Rightarrow> error + expo_state" where
  "init_table st n =
     (if init st then Inr st
      else
        ebind (wr (pwrtbl st) 0 1) (\<lambda>tbl.
        ebind (build_tbl tbl (highestpwrtblpwr st) n) (\<lambda>(tbl', h).
          Inr \<lparr>init = True, pwrtbl = tbl', highestpwrtblpwr = h\<rparr>)))"

function scan :: "int list \<Rightarrow> int \<Rightarrow> double \<Rightarrow> error + int" where
  "scan tbl b n =
     ebind (rd tbl b) (\<lambda>v. if i2d v < n then scan tbl (b + 1) n else Inr b)"
  by pat_completeness auto
termination
  by (relation "measure (\<lambda>(tbl, b, n). nat (int (length tbl) - b))")
     (auto simp: rd_def split: if_splits)

declare scan.simps [simp del]

definition reduce :: "double \<Rightarrow> double \<Rightarrow> error + double" where
  "reduce r k =
     ebind (ddiv r k) (\<lambda>q.
     ebind (d2i q) (\<lambda>qi.
       Inr (dsub r (dmul (i2d qi) k))))"

fun pow_loop :: "nat \<Rightarrow> double \<Rightarrow> double \<Rightarrow> int \<Rightarrow> double \<Rightarrow> error + double" where
  "pow_loop 0 k n t r = Inr r"
| "pow_loop (Suc c) k n t r =
     ebind (if i2d t \<le> n
            then ebind (reduce (dmul r 16) k) (\<lambda>r1. Inr (r1, dsub n (i2d t)))
            else Inr (r, n)) (\<lambda>(r1, n1).
     let t1 = c_div2 t in
     ebind (if 1 \<le> t1 then reduce (dmul r1 r1) k else Inr r1) (\<lambda>r2.
       pow_loop c k n1 t1 r2))"

definition expoMod :: "expo_state \<Rightarrow> double \<Rightarrow> double \<Rightarrow> error + (expo_state \<times> double)" where
  "expoMod st n k =
     ebind (init_table st n) (\<lambda>st1.
     ebind (scan (pwrtbl st1) 0 n) (\<lambda>b.
     ebind (rd (pwrtbl st1) b) (\<lambda>v.
     let bitsneeded = (if i2d v \<noteq> n then b - 1 else b) in
     ebind (rd (pwrtbl st1) bitsneeded) (\<lambda>t.
     ebind (pow_loop (nat (bitsneeded + 1)) k n t 1) (\<lambda>r.
       Inr (st1, r))))))"


section \<open>leftPortionThreaded\<close>

function lpt_loop ::
  "expo_state \<Rightarrow> int \<Rightarrow> int \<Rightarrow> int \<Rightarrow> int \<Rightarrow> int \<Rightarrow> double \<Rightarrow> error + (expo_state \<times> double)" where
  "lpt_loop st terms kinit j d k s =
     ebind (int_chk (kinit + terms)) (\<lambda>kend.
       if k < kend then
         ebind (int_chk (8 * k)) (\<lambda>k8.
         ebind (int_chk (k8 + j)) (\<lambda>den.
         ebind (int_chk (d - k)) (\<lambda>n.
         ebind (expoMod st (i2d n) (i2d den)) (\<lambda>(st1, numerator).
         ebind (ddiv numerator (i2d den)) (\<lambda>q.
         let s1 = dadd s q;
             s2 = dsub s1 (c_floor s1) in
         ebind (int_chk (k + 1)) (\<lambda>k1.
           lpt_loop st1 terms kinit j d k1 s2))))))
       else Inr (st, s))"
  by pat_completeness auto
termination
  by (relation "measure (\<lambda>(st, terms, kinit, j, d, k, s). nat (kinit + terms - k))")
     (auto simp: int_chk_def split: if_splits)

declare lpt_loop.simps [simp del]

definition leftPortionThreaded ::
  "int \<Rightarrow> expo_state \<Rightarrow> int \<Rightarrow> int \<Rightarrow> int \<Rightarrow> error + (expo_state \<times> double)" where
  "leftPortionThreaded terms st k j d = lpt_loop st terms k j d k 0"

section \<open>bbpf16jsd\<close>

text \<open>
  One batch of worker threads. The workers are started one after the other, each on the
  next block of 100000 indices, and joined afterwards; they share nothing but the statics
  of \<open>expoMod\<close>. Once the table is initialised, \<open>expoMod\<close> only reads
  its statics, so the workers do not interfere: the result of each is the value of
  \<open>leftPortionThreaded\<close> on the common state, and \<open>run_threads\<close> computes
  them in launch order. While the table is not initialised, every worker that calls
  \<open>expoMod\<close> enters the initialisation loop and writes \<open>init\<close>,
  \<open>pwrtbl\<close> and \<open>highestpwrtblpwr\<close> without synchronisation. With two
  or more workers this is a data race: what the batch does depends on the schedule (for
  instance on which worker sizes the table) and is undefined in C++, and the model stops
  with \<open>DataRace\<close>. A single worker is concurrent with nothing, because the
  caller waits for it in \<open>join\<close>.
\<close>

definition data_race :: "nat \<Rightarrow> expo_state \<Rightarrow> bool" where
  "data_race noOfThreads st \<longleftrightarrow> 2 \<le> noOfThreads \<and> \<not> init st"

fun run_threads ::
  "nat \<Rightarrow> expo_state \<Rightarrow> int \<Rightarrow> int \<Rightarrow> int \<Rightarrow> error + (expo_state \<times> int \<times> double list)" where
  "run_threads 0 st k j d = Inr (st, k, [])"
| "run_threads (Suc c) st k j d =
     ebind (leftPortionThreaded 100000 st k j d) (\<lambda>(st1, res).
     ebind (int_chk (k + 100000)) (\<lambda>k1.
     ebind (run_threads c st1 k1 j d) (\<lambda>(st2, k2, ress).
       Inr (st2, k2, res # ress))))"

fun collect :: "double list \<Rightarrow> double \<Rightarrow> error + double" where
  "collect [] s = Inr s"
| "collect (res # ress) s =
     (let s1 = dadd s res in
      ebind (d2i s1) (\<lambda>i. collect ress (dsub s1 (i2d i))))"

definition seq_term :: "expo_state \<Rightarrow> int \<Rightarrow> int \<Rightarrow> int \<Rightarrow> double \<Rightarrow> error + (expo_state \<times> int \<times> double)" where
  "seq_term st j d k s =
     ebind (int_chk (8 * k)) (\<lambda>k8.
     ebind (int_chk (k8 + j)) (\<lambda>den.
     ebind (int_chk (d - k)) (\<lambda>n.
     ebind (expoMod st (i2d n) (i2d den)) (\<lambda>(st1, numerator).
     ebind (ddiv numerator (i2d den)) (\<lambda>term.
     let s1 = dadd s term in
     ebind (d2i s1) (\<lambda>i.
     ebind (int_chk (k + 1)) (\<lambda>k1.
       Inr (st1, k1, dsub s1 (i2d i)))))))))"

definition left_body :: "nat \<Rightarrow> expo_state \<Rightarrow> int \<Rightarrow> int \<Rightarrow> int \<Rightarrow> double \<Rightarrow> error + (expo_state \<times> int \<times> double)" where
  "left_body noOfThreads st j d k s =
     (if (k + 100000 * int noOfThreads) mod 2 ^ 32 < d then
        if data_race noOfThreads st then Inl DataRace
        else
          ebind (run_threads noOfThreads st k j d) (\<lambda>(st1, k1, ress).
          ebind (collect (rev ress) s) (\<lambda>s1.
            Inr (st1, k1, s1)))
      else seq_term st j d k s)"

partial_function (option) left_portion ::
  "nat \<Rightarrow> int \<Rightarrow> int \<Rightarrow> expo_state \<Rightarrow> int \<Rightarrow> double \<Rightarrow> (error + (expo_state \<times> double)) option" where
  "left_portion noOfThreads j d st k s =
     (if k < d then
        (case left_body noOfThreads st j d k s of
           Inl e \<Rightarrow> Some (Inl e)
         | Inr (st1, k1, s1) \<Rightarrow> left_portion noOfThreads j d st1 k1 s1)
      else Some (Inr (st, s)))"

function right_portion :: "int \<Rightarrow> int \<Rightarrow> int \<Rightarrow> double \<Rightarrow> error + (double \<times> int)" where
  "right_portion j d k s =
     ebind (int_chk (d + 100)) (\<lambda>lim.
       if k \<le> lim then
         ebind (int_chk (d - k)) (\<lambda>e.
         ebind (int_chk (8 * k)) (\<lambda>k8.
         ebind (int_chk (k8 + j)) (\<lambda>den.
         ebind (ddiv (c_pow16 e) (i2d den)) (\<lambda>term.
           if term < c_1e17 then Inr (s, k)
           else
             let s1 = dadd s term in
             ebind (d2i s1) (\<lambda>i.
             ebind (int_chk (k + 1)) (\<lambda>k1.
               right_portion j d k1 (dsub s1 (i2d i))))))))
       else Inr (s, k))"
  by pat_completeness auto
termination
  by (relation "measure (\<lambda>(j, d, k, s). nat (d + 101 - k))")
     (auto simp: int_chk_def split: if_splits)

declare right_portion.simps [simp del]

definition bbpf16jsd ::
  "nat \<Rightarrow> expo_state \<Rightarrow> int \<Rightarrow> int \<Rightarrow> (error + (expo_state \<times> double)) option" where
  "bbpf16jsd noOfThreads st j d =
     (case left_portion noOfThreads j d st 0 0 of
        None \<Rightarrow> None
      | Some (Inl e) \<Rightarrow> Some (Inl e)
      | Some (Inr (st1, s)) \<Rightarrow>
          Some (ebind (right_portion j d d s) (\<lambda>(s1, kfin). Inr (st1, s1))))"

section \<open>bbpfCalc and toHex\<close>

definition combine :: "double \<Rightarrow> double \<Rightarrow> double \<Rightarrow> double \<Rightarrow> error + double" where
  "combine s1 s4 s5 s6 =
     (let result = dsub (dsub (dsub (dmul 4 s1) (dmul 2 s4)) s5) s6 in
      ebind (d2i result) (\<lambda>i. Inr (dadd (dsub result (i2d i)) 1)))"

definition bbpfCalc :: "nat \<Rightarrow> expo_state \<Rightarrow> int \<Rightarrow> (error + (expo_state \<times> double)) option" where
  "bbpfCalc noOfThreads st place =
     (case bbpf16jsd noOfThreads st 1 place of
        None \<Rightarrow> None | Some (Inl e) \<Rightarrow> Some (Inl e)
      | Some (Inr (st1, s1)) \<Rightarrow>
     (case bbpf16jsd noOfThreads st1 4 place of
        None \<Rightarrow> None | Some (Inl e) \<Rightarrow> Some (Inl e)
      | Some (Inr (st2, s4)) \<Rightarrow>
     (case bbpf16jsd noOfThreads st2 5 place of
        None \<Rightarrow> None | Some (Inl e) \<Rightarrow> Some (Inl e)
      | Some (Inr (st3, s5)) \<Rightarrow>
     (case bbpf16jsd noOfThreads st3 6 place of
        None \<Rightarrow> None | Some (Inl e) \<Rightarrow> Some (Inl e)
      | Some (Inr (st4, s6)) \<Rightarrow>
          Some (ebind (combine s1 s4 s5 s6) (\<lambda>pidec. Inr (st4, pidec)))))))"

definition hexNumbers :: string where
  "hexNumbers = ''0123456789ABCDEF'' @ [CHR 0x00]"

definition char_at :: "string \<Rightarrow> int \<Rightarrow> error + char" where
  "char_at cs i = (if 0 \<le> i \<and> i < int (length cs) then Inr (cs ! nat i) else Inl OutOfBounds)"

fun toHex_loop :: "nat \<Rightarrow> double \<Rightarrow> error + string" where
  "toHex_loop 0 x = Inr []"
| "toHex_loop (Suc c) x =
     (let x1 = dmul 16 (dsub x (c_floor x)) in
      ebind (d2i x1) (\<lambda>i.
      ebind (char_at hexNumbers i) (\<lambda>ch.
      ebind (toHex_loop c x1) (\<lambda>out. Inr (ch # out)))))"

definition toHex :: "double \<Rightarrow> error + string" where
  "toHex x = toHex_loop 9 x"

definition pi_hex :: "nat \<Rightarrow> expo_state \<Rightarrow> int \<Rightarrow> (error + string) option" where
  "pi_hex noOfThreads st place =
     (case bbpfCalc noOfThreads st place of
        None \<Rightarrow> None | Some (Inl e) \<Rightarrow> Some (Inl e)
      | Some (Inr (st1, pidec)) \<Rightarrow> Some (toHex pidec))"

section \<open>Reference notions used in the statements\<close>

text \<open>
  The table that the first call of \<open>expoMod\<close> leaves behind, written down directly:
  entries \<open>0..h\<close> hold \<open>1, 2, 4, \<dots>, 2 ^ h\<close>, all later entries keep
  the zero of static storage. \<open>tbl_top n\<close> is the index of the smallest power of two
  that is at least \<open>n\<close>.
\<close>

definition pow_table :: "nat \<Rightarrow> nat \<Rightarrow> int list" where
  "pow_table len h = map (\<lambda>i. 2 ^ i) [0..<Suc h] @ replicate (len - Suc h) 0"

definition built_state :: "nat \<Rightarrow> nat \<Rightarrow> expo_state" where
  "built_state len h = \<lparr>init = True, pwrtbl = pow_table len h, highestpwrtblpwr = int h\<rparr>"

definition tbl_top :: "double \<Rightarrow> nat" where
  "tbl_top n = nat (bitlen (\<lceil>n\<rceil> - 1))"

text \<open>
  The index \<open>expoMod\<close> ends up with in \<open>bitsneeded\<close> when the scan of a covering
  table stops at \<open>tbl_top n\<close>.
\<close>

definition bits_needed :: "double \<Rightarrow> int" where
  "bits_needed n = (if i2d (2 ^ tbl_top n) \<noteq> n then int (tbl_top n) - 1 else int (tbl_top n))"

text \<open>Several calls of \<open>expoMod\<close> in one process, threading the static state.\<close>

fun expoMod_calls ::
  "expo_state \<Rightarrow> (double \<times> double) list \<Rightarrow> error + (expo_state \<times> double list)" where
  "expoMod_calls st [] = Inr (st, [])"
| "expoMod_calls st ((n, k) # cs) =
     ebind (expoMod st n k) (\<lambda>(st1, r).
     ebind (expoMod_calls st1 cs) (\<lambda>(st2, rs). Inr (st2, r # rs)))"

text \<open>
  The chunk sum as the specification words it: the terms
  \<open>(16 ^ (d - k) mod (8 k + j)) / (8 k + j)\<close>, with the exact integer residue as
  numerator, are added one by one in double arithmetic, and the accumulator is reduced
  modulo 1 after every addition.
\<close>

definition frac1 :: "double \<Rightarrow> double" where
  "frac1 x = x - of_int \<lfloor>x\<rfloor>"

definition spec_term :: "int \<Rightarrow> int \<Rightarrow> int \<Rightarrow> double" where
  "spec_term j d k = rnd (of_int (16 ^ nat (d - k) mod (8 * k + j)) / of_int (8 * k + j))"

fun chunk_sum_spec :: "nat \<Rightarrow> int \<Rightarrow> int \<Rightarrow> int \<Rightarrow> double \<Rightarrow> double" where
  "chunk_sum_spec 0 k j d s = s"
| "chunk_sum_spec (Suc c) k j d s =
     chunk_sum_spec c (k + 1) j d (frac1 (dadd s (spec_term j d k)))"

text \<open>
  The right portion: the term of index \<open>k\<close> as the loop computes it, and the sum of
  the first \<open>c\<close> of them from index \<open>k\<close> on, reduced modulo 1 after every addition.
\<close>

definition right_term :: "int \<Rightarrow> int \<Rightarrow> int \<Rightarrow> double" where
  "right_term j d k = rnd (16 powi (d - k) / of_int (8 * k + j))"

fun tail_sum_spec :: "nat \<Rightarrow> int \<Rightarrow> int \<Rightarrow> int \<Rightarrow> double \<Rightarrow> double" where
  "tail_sum_spec 0 j d k s = s"
| "tail_sum_spec (Suc c) j d k s =
     tail_sum_spec c j d (k + 1) (frac1 (dadd s (right_term j d k)))"

text \<open>The uncombined value of \<open>bbpfCalc\<close>, before the fractional part is taken.\<close>

definition raw_combination :: "double \<Rightarrow> double \<Rightarrow> double \<Rightarrow> double \<Rightarrow> double" where
  "raw_combination s1 s4 s5 s6 = dsub (dsub (dsub (dmul 4 s1) (dmul 2 s4)) s5) s6"

text \<open>
  Two ways to read an outcome. \<open>returns_value\<close> holds of a run that ends with a
  value: it neither runs forever nor stops at undefined behaviour. \<open>stays_in_bounds B\<close>
  holds of an outcome that is not an out-of-bounds access and, when it is a value, comes
  with the static state \<open>B\<close>.
\<close>

definition returns_value :: "(error + 'a) option \<Rightarrow> bool" where
  "returns_value r = (case r of Some (Inr v) \<Rightarrow> True | _ \<Rightarrow> False)"

definition stays_in_bounds :: "expo_state \<Rightarrow> error + (expo_state \<times> 'a) \<Rightarrow> bool" where
  "stays_in_bounds B r = (case r of Inl e \<Rightarrow> e \<noteq> OutOfBounds | Inr x \<Rightarrow> fst x = B)"

section \<open>Properties of rounding\<close>

lemma expo_bounds_ge1:
  assumes "1 \<le> (x::real)"
  shows "2 powi (expo x) \<le> x \<and> x < 2 powi (expo x + 1)"
proof -
  let ?f = "\<lfloor>x\<rfloor>"
  have f: "0 < ?f" using assms by simp
  have b1: "1 \<le> bitlen ?f" using f bitlen_eq_zero_iff[of ?f] bitlen_nonneg[of ?f] by linarith
  from bitlen_bounds[OF f] have lo: "2 ^ nat (bitlen ?f - 1) \<le> ?f" and hi: "?f < 2 ^ nat (bitlen ?f)"
    by auto
  have e: "expo x = bitlen ?f - 1" using assms by (simp add: expo_def)
  have "(2::real) powi (expo x) = of_int (2 ^ nat (bitlen ?f - 1))"
    using b1 by (simp add: e power_int_nonneg_exp)
  also have "\<dots> \<le> of_int ?f" using lo by (simp only: of_int_le_iff)
  also have "\<dots> \<le> x" by simp
  finally have A: "2 powi (expo x) \<le> x" .
  have "?f + 1 \<le> 2 ^ nat (bitlen ?f)" using hi by simp
  then have "(of_int (?f + 1) :: real) \<le> of_int (2 ^ nat (bitlen ?f))" by (simp only: of_int_le_iff)
  moreover have "x < of_int (?f + 1)" by linarith
  moreover have "(2::real) powi (expo x + 1) = of_int (2 ^ nat (bitlen ?f))"
    using b1 by (simp add: e power_int_nonneg_exp)
  ultimately have "x < 2 powi (expo x + 1)" by linarith
  with A show ?thesis by simp
qed

lemma expo_bounds_lt1:
  assumes "0 < (x::real)" "x < 1"
  shows "2 powi (expo x) \<le> x \<and> x < 2 powi (expo x + 1)"
proof -
  let ?c = "\<lceil>1 / x\<rceil>"
  let ?m = "bitlen (?c - 1)"
  have y: "1 < 1 / x" using assms by simp
  then have c: "0 < ?c - 1" by linarith
  have m1: "1 \<le> ?m" using c bitlen_eq_zero_iff[of "?c - 1"] bitlen_nonneg[of "?c - 1"] by linarith
  from bitlen_bounds[OF c] have lo: "2 ^ nat (?m - 1) \<le> ?c - 1" and hi: "?c - 1 < 2 ^ nat ?m"
    by auto
  have e: "expo x = - ?m" using assms by (simp add: expo_def)
  have "?c \<le> 2 ^ nat ?m" using hi by simp
  then have "(of_int ?c :: real) \<le> of_int (2 ^ nat ?m)" by (simp only: of_int_le_iff)
  moreover have "1 / x \<le> of_int ?c" by simp
  ultimately have "1 / x \<le> of_int (2 ^ nat ?m)" by linarith
  then have "1 / x \<le> 2 ^ nat ?m" by simp
  then have "1 \<le> 2 ^ nat ?m * x" using assms by (simp add: field_simps)
  then have A: "2 powi (expo x) \<le> x"
    using m1 by (simp add: e power_int_minus power_int_nonneg_exp field_simps)
  have "(of_int (2 ^ nat (?m - 1)) :: real) \<le> of_int (?c - 1)" using lo by (simp only: of_int_le_iff)
  moreover have "of_int (?c - 1) < 1 / x" by linarith
  ultimately have "2 ^ nat (?m - 1) < 1 / x" by simp
  then have "x < 1 / 2 ^ nat (?m - 1)" using assms by (simp add: field_simps)
  moreover have "(2::real) powi (expo x + 1) = 1 / 2 ^ nat (?m - 1)"
  proof -
    have "expo x + 1 = - (?m - 1)" by (simp add: e)
    then have "(2::real) powi (expo x + 1) = 2 powi (- (?m - 1))" by simp
    also have "\<dots> = 1 / 2 powi (?m - 1)" by (simp only: power_int_minus_divide)
    also have "\<dots> = 1 / 2 ^ nat (?m - 1)" using m1 by (simp add: power_int_nonneg_exp)
    finally show ?thesis .
  qed
  ultimately have "x < 2 powi (expo x + 1)" by (simp only:)
  with A show ?thesis by simp
qed

lemma expo_bounds:
  assumes "0 < (x::real)"
  shows "2 powi (expo x) \<le> x" and "x < 2 powi (expo x + 1)"
  using expo_bounds_ge1[of x] expo_bounds_lt1[of x] assms by (cases "1 \<le> x"; simp)+

lemma pow2_less_iff: "(2::real) powi a < 2 powi b \<longleftrightarrow> a < b"
proof
  assume l: "(2::real) powi a < 2 powi b"
  show "a < b"
  proof (rule ccontr)
    assume "\<not> a < b"
    then have "b \<le> a" by simp
    then have "(2::real) powi b \<le> 2 powi a" by (rule power_int_increasing) simp
    with l show False by simp
  qed
next
  assume "a < b"
  then show "(2::real) powi a < 2 powi b" by (rule power_int_strict_increasing) simp
qed

lemma pow2_le_iff: "(2::real) powi a \<le> 2 powi b \<longleftrightarrow> a \<le> b"
  using pow2_less_iff[of b a] by (simp add: not_less[symmetric])

lemma expo_unique:
  assumes "0 < (x::real)" "2 powi e \<le> x" "x < 2 powi (e + 1)"
  shows "expo x = e"
proof -
  have a: "(2::real) powi e < 2 powi (expo x + 1)" using assms expo_bounds[OF assms(1)] by linarith
  have b: "(2::real) powi (expo x) < 2 powi (e + 1)" using assms expo_bounds[OF assms(1)] by linarith
  from a have "e < expo x + 1" by (simp add: pow2_less_iff)
  moreover from b have "expo x < e + 1" by (simp add: pow2_less_iff)
  ultimately show ?thesis by simp
qed


lemma expo_mono:
  assumes "0 < (x::real)" "x \<le> y"
  shows "expo x \<le> expo y"
proof -
  have "0 < y" using assms by simp
  have "(2::real) powi (expo x) \<le> x" using expo_bounds(1)[OF assms(1)] .
  also have "x \<le> y" by fact
  also have "y < 2 powi (expo y + 1)" using expo_bounds(2)[OF \<open>0 < y\<close>] .
  finally have "expo x < expo y + 1" by (simp only: pow2_less_iff)
  then show ?thesis by simp
qed

lemma expo_pow2 [simp]: "expo (2 powi e) = e"
  by (rule expo_unique) (simp_all add: pow2_less_iff)

lemma rhe_cases: "rhe y = \<lfloor>y\<rfloor> \<or> rhe y = \<lfloor>y\<rfloor> + 1"
  by (simp add: rhe_def Let_def)

lemma rhe_of_int [simp]: "rhe (of_int n) = n"
  by (simp add: rhe_def)

lemma rhe_ge:
  assumes "of_int n \<le> y"
  shows "n \<le> rhe y"
proof -
  have "n \<le> \<lfloor>y\<rfloor>" using assms by (simp only: le_floor_iff)
  then show ?thesis using rhe_cases[of y] by linarith
qed

lemma floor_bounds_real: "of_int \<lfloor>y::real\<rfloor> \<le> y" "y < of_int \<lfloor>y\<rfloor> + 1"
  by linarith+

lemma rhe_le:
  assumes "y \<le> of_int n"
  shows "rhe y \<le> n"
proof (cases "y = of_int \<lfloor>y\<rfloor>")
  case True
  then have "rhe y = \<lfloor>y\<rfloor>" by (metis rhe_of_int)
  moreover have "\<lfloor>y\<rfloor> \<le> n" using assms by (simp add: floor_le_iff) 
  ultimately show ?thesis by simp
next
  case False
  then have "of_int \<lfloor>y\<rfloor> < y" using floor_bounds_real(1)[of y] by linarith
  then have "of_int \<lfloor>y\<rfloor> < (of_int n :: real)" using assms by linarith
  then have "\<lfloor>y\<rfloor> < n" by (simp only: of_int_less_iff)
  then show ?thesis using rhe_cases[of y] by linarith
qed

lemma rhe_err: "\<bar>of_int (rhe y) - y\<bar> \<le> 1/2"
proof -
  define f where "f = \<lfloor>y\<rfloor>"
  define r where "r = y - of_int f"
  have r: "0 \<le> r" "r < 1" using floor_bounds_real[of y] unfolding r_def f_def by linarith+
  have y: "y = of_int f + r" by (simp add: r_def)
  have "rhe y = (if r < 1/2 then f else if 1/2 < r then f + 1 else if even f then f else f + 1)"
    by (simp add: rhe_def Let_def f_def r_def)
  then consider "rhe y = f" "r \<le> 1/2" | "rhe y = f + 1" "1/2 \<le> r"
    by (cases "r < 1/2"; cases "1/2 < r"; cases "even f"; simp)
  then show ?thesis
  proof cases
    case 1
    then show ?thesis using r by (simp add: y)
  next
    case 2
    then show ?thesis using r by (simp add: y)
  qed
qed

lemma rhe_mono:
  assumes "x \<le> y"
  shows "rhe x \<le> rhe y"
proof (cases "\<lfloor>x\<rfloor> < \<lfloor>y\<rfloor>")
  case True
  then show ?thesis using rhe_cases[of x] rhe_cases[of y] by linarith
next
  case False
  then have eq: "\<lfloor>x\<rfloor> = \<lfloor>y\<rfloor>" using floor_mono[OF assms] by simp
  have "x - of_int \<lfloor>y\<rfloor> \<le> y - of_int \<lfloor>y\<rfloor>" using assms by simp
  then show ?thesis unfolding rhe_def Let_def eq by (simp split: if_splits)
qed

lemma rhe_minus: "rhe (- y) = - rhe y"
proof (cases "y = of_int \<lfloor>y\<rfloor>")
  case True
  then obtain n where n: "y = of_int n" ..
  then have "- y = of_int (- n)" by simp
  then have "rhe (- y) = - n" by (simp only: rhe_of_int)
  then show ?thesis by (simp add: n)
next
  case False
  then have lt: "of_int \<lfloor>y\<rfloor> < y" using floor_bounds_real(1)[of y] by linarith
  have fl: "\<lfloor>- y\<rfloor> = - \<lfloor>y\<rfloor> - 1"
  proof (rule floor_unique)
    have "of_int (- \<lfloor>y\<rfloor> - 1) = - of_int \<lfloor>y\<rfloor> - (1::real)" by simp
    then show "of_int (- \<lfloor>y\<rfloor> - 1) \<le> - y" by linarith
    have "of_int (- \<lfloor>y\<rfloor> - 1) + 1 = - (of_int \<lfloor>y\<rfloor> :: real)" by simp
    then show "- y < of_int (- \<lfloor>y\<rfloor> - 1) + 1" using lt by linarith
  qed
  define f where "f = \<lfloor>y\<rfloor>"
  define r where "r = y - of_int f"
  have r: "0 < r" "r < 1" using lt floor_bounds_real(2)[of y] unfolding r_def f_def by linarith+
  have a: "rhe y = (if r < 1/2 then f else if 1/2 < r then f + 1 else if even f then f else f + 1)"
    by (simp add: rhe_def Let_def f_def r_def)
  have "- y - of_int (- f - 1) = 1 - r" by (simp add: r_def)
  then have b: "rhe (- y) = (if 1 - r < 1/2 then - f - 1 else if 1/2 < 1 - r then - f else if even (- f - 1) then - f - 1 else - f)"
    unfolding rhe_def Let_def fl f_def[symmetric] by simp
  show ?thesis
  proof (cases "r < 1/2")
    case True
    then show ?thesis using a b by simp
  next
    case False
    note nlt = this
    show ?thesis
    proof (cases "1/2 < r")
      case True
      then show ?thesis using a b by simp
    next
      case False
      then have "r = 1/2" using nlt by simp
      then show ?thesis using a b by simp
    qed
  qed
qed


lemma rnd_0 [simp]: "rnd 0 = 0"
  by (simp add: rnd_def)

lemma rnd_minus: "rnd (- x) = - rnd x"
  by (simp add: rnd_def Let_def rhe_minus)

lemma rnd_pos_form:
  "0 < x \<Longrightarrow> rnd x = of_int (rhe (x / 2 powi (expo x - 52))) * 2 powi (expo x - 52)"
  by (simp add: rnd_def Let_def)

lemma pow2_split: "(2::real) powi (a + b) = 2 powi a * 2 powi b"
  by (simp add: power_int_add)

lemma pow2_pos [simp]: "0 < (2::real) powi a"
  by simp

lemma pow2_expo_52: "(2::real) powi e = 2 ^ 52 * 2 powi (e - 52)"
proof -
  have "(2::real) powi (52 + (e - 52)) = 2 powi 52 * 2 powi (e - 52)" by (rule pow2_split)
  then show ?thesis by simp
qed

lemma pow2_expo_53: "(2::real) powi (e + 1) = 2 ^ 53 * 2 powi (e - 52)"
proof -
  have "(2::real) powi (53 + (e - 52)) = 2 powi 53 * 2 powi (e - 52)" by (rule pow2_split)
  moreover have "53 + (e - 52) = e + 1" by simp
  ultimately show ?thesis by simp
qed

lemma scaled_bounds:
  assumes "0 < (x::real)"
  shows "2 ^ 52 \<le> x / 2 powi (expo x - 52)" and "x / 2 powi (expo x - 52) < 2 ^ 53"
proof -
  have a: "(2::real) powi (expo x) = 2 ^ 52 * 2 powi (expo x - 52)" by (rule pow2_expo_52)
  have b: "(2::real) powi (expo x + 1) = 2 ^ 53 * 2 powi (expo x - 52)" by (rule pow2_expo_53)
  show "2 ^ 52 \<le> x / 2 powi (expo x - 52)"
    using expo_bounds(1)[OF assms] unfolding a by (simp add: pos_le_divide_eq)
  show "x / 2 powi (expo x - 52) < 2 ^ 53"
    using expo_bounds(2)[OF assms] unfolding b by (simp add: pos_divide_less_eq)
qed

lemma rnd_bounds:
  assumes "0 < (x::real)"
  shows "2 powi (expo x) \<le> rnd x" and "rnd x \<le> 2 powi (expo x + 1)"
proof -
  let ?g = "(2::real) powi (expo x - 52)"
  let ?m = "rhe (x / ?g)"
  have a: "(2::real) powi (expo x) = 2 ^ 52 * ?g" by (rule pow2_expo_52)
  have b: "(2::real) powi (expo x + 1) = 2 ^ 53 * ?g" by (rule pow2_expo_53)
  have "of_int (2 ^ 52) \<le> x / ?g" using scaled_bounds(1)[OF assms] by simp
  then have "2 ^ 52 \<le> ?m" by (rule rhe_ge)
  then have "(of_int (2 ^ 52) :: real) \<le> of_int ?m" by (simp only: of_int_le_iff)
  then have "2 ^ 52 * ?g \<le> of_int ?m * ?g" by (simp add: mult_right_mono)
  then show "2 powi (expo x) \<le> rnd x" by (simp only: a rnd_pos_form[OF assms])
  have "x / ?g \<le> of_int (2 ^ 53)" using scaled_bounds(2)[OF assms] by simp
  then have "?m \<le> 2 ^ 53" by (rule rhe_le)
  then have "(of_int ?m :: real) \<le> of_int (2 ^ 53)" by (simp only: of_int_le_iff)
  then have "of_int ?m * ?g \<le> 2 ^ 53 * ?g" by (simp add: mult_right_mono)
  then show "rnd x \<le> 2 powi (expo x + 1)" by (simp only: b rnd_pos_form[OF assms])
qed

lemma rnd_pos: "0 < x \<Longrightarrow> 0 < rnd x"
  using rnd_bounds(1)[of x] pow2_pos[of "expo x"] by linarith

lemma rnd_mono_pos:
  assumes "0 < (x::real)" "x \<le> y"
  shows "rnd x \<le> rnd y"
proof (cases "expo x = expo y")
  case True
  have y: "0 < y" using assms by simp
  let ?g = "(2::real) powi (expo y - 52)"
  have "x / ?g \<le> y / ?g" using assms by (simp add: divide_right_mono)
  then have "rhe (x / ?g) \<le> rhe (y / ?g)" by (rule rhe_mono)
  then have "(of_int (rhe (x / ?g)) :: real) \<le> of_int (rhe (y / ?g))" by (simp only: of_int_le_iff)
  then have "of_int (rhe (x / ?g)) * ?g \<le> of_int (rhe (y / ?g)) * ?g" by (simp add: mult_right_mono)
  then show ?thesis by (simp only: rnd_pos_form[OF y] rnd_pos_form[OF assms(1)] True)
next
  case False
  have y: "0 < y" using assms by simp
  have "expo x + 1 \<le> expo y" using False expo_mono[OF assms] by simp
  then have "(2::real) powi (expo x + 1) \<le> 2 powi (expo y)" by (simp only: pow2_le_iff)
  then show ?thesis using rnd_bounds(2)[OF assms(1)] rnd_bounds(1)[OF y] by linarith
qed

lemma rnd_mono:
  assumes "x \<le> y"
  shows "rnd x \<le> rnd y"
proof -
  consider "0 < x" | "x \<le> 0" "0 \<le> y" | "y < 0" by linarith
  then show ?thesis
  proof cases
    case 1
    then show ?thesis using assms by (rule rnd_mono_pos)
  next
    case 2
    have "rnd x \<le> 0"
    proof (cases "x = 0")
      case True then show ?thesis by simp
    next
      case False
      then have "0 < - x" using 2 by simp
      then have "0 < rnd (- x)" by (rule rnd_pos)
      then show ?thesis by (simp add: rnd_minus)
    qed
    moreover have "0 \<le> rnd y"
    proof (cases "y = 0")
      case True then show ?thesis by simp
    next
      case False
      then have "0 < y" using 2 by simp
      then have "0 < rnd y" by (rule rnd_pos)
      then show ?thesis by simp
    qed
    ultimately show ?thesis by simp
  next
    case 3
    then have "0 < - y" "- y \<le> - x" using assms by simp_all
    then have "rnd (- y) \<le> rnd (- x)" by (rule rnd_mono_pos)
    then show ?thesis by (simp add: rnd_minus)
  qed
qed


lemma is_double_0 [simp]: "is_double 0"
  by (simp add: is_double_def)

lemma is_double_minus: "is_double (- x) \<longleftrightarrow> is_double x"
  by (simp add: is_double_def rnd_minus)

lemma rnd_exact_pos_lt:
  assumes "0 < m" "m < 2 ^ 53"
  shows "rnd (of_int m * 2 powi e) = of_int m * 2 powi e"
proof -
  define x :: real where "x = of_int m * 2 powi e"
  have x: "0 < x" using assms by (simp add: x_def)
  have "(of_int m :: real) < of_int (2 ^ 53)" using assms(2) by (simp only: of_int_less_iff)
  then have "x < 2 ^ 53 * 2 powi e" by (simp add: x_def)
  also have "\<dots> = 2 powi (e + 53)" using pow2_split[of 53 e] by (simp add: add.commute)
  finally have "(2::real) powi (expo x) < 2 powi (e + 53)" using expo_bounds(1)[OF x] by linarith
  then have "expo x < e + 53" by (simp only: pow2_less_iff)
  then have d: "0 \<le> e - (expo x - 52)" by simp
  have "(2::real) powi e = 2 powi ((e - (expo x - 52)) + (expo x - 52))" by simp
  also have "\<dots> = 2 powi (e - (expo x - 52)) * 2 powi (expo x - 52)" by (rule pow2_split)
  also have "\<dots> = of_int (2 ^ nat (e - (expo x - 52))) * 2 powi (expo x - 52)"
    using d by (simp add: power_int_nonneg_exp)
  finally have g: "(2::real) powi e = of_int (2 ^ nat (e - (expo x - 52))) * 2 powi (expo x - 52)" .
  define G :: real where "G = 2 powi (expo x - 52)"
  define M :: int where "M = m * 2 ^ nat (e - (expo x - 52))"
  have G: "G \<noteq> 0" by (simp add: G_def)
  have xeq: "x = of_int M * G" 
    using g by (simp add: x_def G_def M_def)
  then have "x / G = of_int M" using G by simp
  then have "rhe (x / G) = M" by (simp only: rhe_of_int)
  then have "rnd x = of_int M * G"
    by (simp only: rnd_pos_form[OF x] G_def)
  then have "rnd x = x" by (simp only: xeq[symmetric])
  then show ?thesis by (simp only: x_def)
qed

lemma rnd_exact_pos:
  assumes "0 < m" "m \<le> 2 ^ 53"
  shows "rnd (of_int m * 2 powi e) = of_int m * 2 powi e"
proof (cases "m = 2 ^ 53")
  case True
  have "(of_int m :: real) * 2 powi e = of_int (2 ^ 52) * 2 powi (e + 1)"
    using pow2_split[of 1 e] by (simp add: True add.commute)
  moreover have "rnd (of_int (2 ^ 52) * 2 powi (e + 1)) = of_int (2 ^ 52) * 2 powi (e + 1)"
    by (rule rnd_exact_pos_lt) simp_all
  ultimately show ?thesis by simp
next
  case False
  then have "m < 2 ^ 53" using assms by simp
  with assms(1) show ?thesis by (rule rnd_exact_pos_lt)
qed

lemma rnd_exact:
  assumes "\<bar>m\<bar> \<le> 2 ^ 53"
  shows "rnd (of_int m * 2 powi e) = of_int m * 2 powi e"
proof -
  consider "m = 0" | "0 < m" | "m < 0" by linarith
  then show ?thesis
  proof cases
    case 1 then show ?thesis by simp
  next
    case 2 then show ?thesis using assms by (intro rnd_exact_pos) simp_all
  next
    case 3
    then have "rnd (of_int (- m) * 2 powi e) = of_int (- m) * 2 powi e"
      using assms by (intro rnd_exact_pos) simp_all
    then have "rnd (- (of_int m * 2 powi e)) = - (of_int m * 2 powi e)" by simp
    then show ?thesis by (simp only: rnd_minus neg_equal_iff_equal)
  qed
qed

lemma is_doubleI: "\<bar>m\<bar> \<le> 2 ^ 53 \<Longrightarrow> is_double (of_int m * 2 powi e)"
  unfolding is_double_def by (rule rnd_exact)

lemma rnd_of_int: "\<bar>m\<bar> \<le> 2 ^ 53 \<Longrightarrow> rnd (of_int m) = of_int m"
  using rnd_exact[of m 0] by simp

lemma is_double_of_int: "\<bar>m\<bar> \<le> 2 ^ 53 \<Longrightarrow> is_double (of_int m)"
  unfolding is_double_def by (rule rnd_of_int)

lemma rnd_mantissa:
  assumes "0 < (x::real)"
  shows "2 ^ 52 \<le> rhe (x / 2 powi (expo x - 52))" "rhe (x / 2 powi (expo x - 52)) \<le> 2 ^ 53"
proof -
  let ?g = "(2::real) powi (expo x - 52)"
  have "of_int (2 ^ 52) \<le> x / ?g" using scaled_bounds(1)[OF assms] by simp
  then show "2 ^ 52 \<le> rhe (x / ?g)" by (rule rhe_ge)
  have "x / ?g \<le> of_int (2 ^ 53)" using scaled_bounds(2)[OF assms] by simp
  then show "rhe (x / ?g) \<le> 2 ^ 53" by (rule rhe_le)
qed

lemma is_double_rnd: "is_double (rnd x)"
proof -
  have pos: "is_double (rnd y)" if "0 < y" for y
  proof -
    have "\<bar>rhe (y / 2 powi (expo y - 52))\<bar> \<le> 2 ^ 53"
      using rnd_mantissa[OF that] by simp
    then show ?thesis unfolding rnd_pos_form[OF that] by (rule is_doubleI)
  qed
  consider "x = 0" | "0 < x" | "0 < - x" by linarith
  then show ?thesis
  proof cases
    case 1 then show ?thesis by simp
  next
    case 2 then show ?thesis by (rule pos)
  next
    case 3
    then have "is_double (rnd (- x))" by (rule pos)
    then show ?thesis by (simp add: rnd_minus is_double_minus)
  qed
qed

lemma rnd_idem [simp]: "rnd (rnd x) = rnd x"
  using is_double_rnd[of x] by (simp add: is_double_def)

lemma rnd_err:
  assumes "0 < (x::real)"
  shows "\<bar>rnd x - x\<bar> \<le> 2 powi (expo x - 53)"
proof -
  let ?g = "(2::real) powi (expo x - 52)"
  have g: "?g = 2 * 2 powi (expo x - 53)" using pow2_split[of 1 "expo x - 53"] by simp
  have "rnd x - x = (of_int (rhe (x / ?g)) - x / ?g) * ?g"
    by (simp add: rnd_pos_form[OF assms] algebra_simps)
  then have "\<bar>rnd x - x\<bar> = \<bar>of_int (rhe (x / ?g)) - x / ?g\<bar> * ?g"
    by (simp add: abs_mult)
  also have "\<dots> \<le> 1/2 * ?g" by (intro mult_right_mono rhe_err) simp
  also have "\<dots> = 2 powi (expo x - 53)" by (subst g) simp
  finally show ?thesis .
qed

lemma rnd_le_double: "x \<le> y \<Longrightarrow> is_double y \<Longrightarrow> rnd x \<le> y"
  using rnd_mono[of x y] by (simp add: is_double_def)

lemma rnd_ge_double: "y \<le> x \<Longrightarrow> is_double y \<Longrightarrow> y \<le> rnd x"
  using rnd_mono[of y x] by (simp add: is_double_def)


lemma floor_rnd_div:
  assumes "0 \<le> r" "r < 2 ^ 53" "1 \<le> k" "k \<le> 2 ^ 53"
  shows "\<lfloor>rnd (of_int r / of_int k)\<rfloor> = r div k"
proof -
  define x :: real where "x = of_int r / of_int k"
  define q where "q = r div k"
  have k: "0 < k" using assms by simp
  have kr: "(0::real) < of_int k" using k by simp
  have q0: "0 \<le> q" using assms k by (simp add: q_def pos_imp_zdiv_nonneg_iff)
  have dm: "r = q * k + r mod k" by (simp add: q_def)
  have m0: "0 \<le> r mod k" "r mod k < k" using k by simp_all
  have qk: "q * k \<le> r" using dm m0 by linarith
  have "q * 1 \<le> q * k" using q0 assms(3) by (intro mult_left_mono) simp_all
  then have qr: "q \<le> r" using qk by simp
  have lo: "of_int q \<le> x"
  proof -
    note qk
    then have "(of_int (q * k) :: real) \<le> of_int r" by (simp only: of_int_le_iff)
    then show ?thesis using kr by (simp add: x_def pos_le_divide_eq)
  qed
  have gap: "1 / of_int k \<le> of_int (q + 1) - x"
  proof -
    have "(q + 1) * k = q * k + k" by (simp add: algebra_simps)
    then have "r < (q + 1) * k" using dm m0 by linarith
    then have "r + 1 \<le> (q + 1) * k" by simp
    then have "(of_int (r + 1) :: real) \<le> of_int ((q + 1) * k)" by (simp only: of_int_le_iff)
    then have "(of_int r + 1) / of_int k \<le> (of_int (q + 1) :: real)"
      using kr by (simp add: pos_divide_le_eq)
    then show ?thesis by (simp add: x_def add_divide_distrib)
  qed
  have hi: "x < of_int (q + 1)" using gap kr
    by (smt (verit, best) divide_pos_pos zero_less_one diff_gt_0_iff_gt less_le_trans)
  have dq: "is_double (of_int q)" using qr q0 assms by (intro is_double_of_int) simp
  have dq1: "is_double (of_int (q + 1))" using qr q0 assms by (intro is_double_of_int) simp
  have A: "of_int q \<le> rnd x" using lo dq by (rule rnd_ge_double)
  have B: "rnd x \<le> of_int (q + 1)" using hi dq1 by (intro rnd_le_double) simp_all
  have C: "rnd x \<noteq> of_int (q + 1)"
  proof
    assume eq: "rnd x = of_int (q + 1)"
    have xpos: "0 < x"
    proof (rule ccontr)
      assume "\<not> 0 < x"
      then have "x = 0" using lo q0 by (smt (verit) of_int_0_le_iff order_trans not_less order_antisym)
      then have "rnd x = 0" by simp
      then show False using eq q0 by simp
    qed
    have r: "0 < r" using xpos kr by (simp add: x_def zero_less_divide_iff)
    have "(2::real) powi (expo x - 53) = 2 powi (expo x) * 2 powi (- 53)"
      using pow2_split[of "expo x" "- 53"] by simp
    also have "\<dots> \<le> x * 2 powi (- 53)"
      using expo_bounds(1)[OF xpos] by (intro mult_right_mono) simp_all
    finally have e: "(2::real) powi (expo x - 53) \<le> x / 2 ^ 53"
      by (simp add: power_int_minus_divide)
    have "of_int (q + 1) - x \<le> \<bar>rnd x - x\<bar>" by (simp add: eq)
    also have "\<dots> \<le> 2 powi (expo x - 53)" by (rule rnd_err[OF xpos])
    also note e
    finally have "1 / of_int k \<le> x / 2 ^ 53" using gap by linarith
    then have "1 / of_int k * of_int k \<le> x / 2 ^ 53 * (of_int k :: real)"
      using kr by (intro mult_right_mono) simp_all
    moreover have "1 / of_int k * of_int k = (1::real)" using kr by simp
    moreover have "x * of_int k = (of_int r :: real)" using kr by (simp add: x_def)
    then have "x / 2 ^ 53 * of_int k = (of_int r :: real) / 2 ^ 53"
      by (simp only: times_divide_eq_left)
    ultimately have "1 \<le> (of_int r :: real) / 2 ^ 53" by (simp only:)
    then have "(of_int (2 ^ 53) :: real) \<le> of_int r" by simp
    then have "2 ^ 53 \<le> r" by (simp only: of_int_le_iff)
    then show False using assms by simp
  qed
  have "rnd x < of_int (q + 1)" using B C by simp
  then have "rnd x < of_int q + 1" by simp
  with A have "\<lfloor>rnd x\<rfloor> = q" by (intro floor_unique)
  then show ?thesis by (simp only: x_def q_def)
qed

lemma is_double_frac:
  assumes "is_double x" "0 \<le> x"
  shows "is_double (x - of_int \<lfloor>x\<rfloor>)"
proof (cases "x = 0")
  case True then show ?thesis by simp
next
  case False
  then have x: "0 < x" using assms by simp
  define M where "M = rhe (x / 2 powi (expo x - 52))"
  have M: "0 \<le> M" "M \<le> 2 ^ 53" using rnd_mantissa[OF x] by (simp_all add: M_def)
  have xeq: "x = of_int M * 2 powi (expo x - 52)"
    using assms(1) unfolding is_double_def rnd_pos_form[OF x] M_def by simp
  show ?thesis
  proof (cases "0 \<le> expo x - 52")
    case True
    then have "x = of_int (M * 2 ^ nat (expo x - 52))"
      by (subst xeq) (simp add: power_int_nonneg_exp)
    then have "x - of_int \<lfloor>x\<rfloor> = 0" by (metis floor_of_int diff_self)
    then show ?thesis by simp
  next
    case False
    define p where "p = nat (52 - expo x)"
    have "expo x - 52 = - int p" using False by (simp add: p_def)
    then have g: "(2::real) powi (expo x - 52) = 1 / 2 ^ p"
      by (simp add: power_int_minus_divide)
    have xd: "x = of_int M / of_int (2 ^ p)" by (subst xeq) (simp add: g)
    have fl: "\<lfloor>x\<rfloor> = M div 2 ^ p" unfolding xd by (rule floor_divide_of_int_eq)
    have "of_int M = (of_int (M div 2 ^ p * 2 ^ p + M mod 2 ^ p) :: real)"
      by (simp only: div_mult_mod_eq)
    then have dec: "(of_int M :: real) = of_int (M div 2 ^ p) * 2 ^ p + of_int (M mod 2 ^ p)"
      by simp
    have "x - of_int \<lfloor>x\<rfloor> = x - of_int (M div 2 ^ p)" by (simp only: fl)
    also have "\<dots> = of_int M / 2 ^ p - of_int (M div 2 ^ p)" by (subst xd) simp
    also have "\<dots> = of_int (M mod 2 ^ p) / of_int (2 ^ p)"
      by (subst dec) (simp add: field_simps)
    also have "\<dots> = of_int (M mod 2 ^ p) * 2 powi (expo x - 52)" by (simp add: g)
    finally have fr: "x - of_int \<lfloor>x\<rfloor> = of_int (M mod 2 ^ p) * 2 powi (expo x - 52)" .
    have "0 \<le> M mod 2 ^ p" by simp
    moreover have "M mod 2 ^ p \<le> M" using M(1) by (simp add: zmod_le_nonneg_dividend)
    ultimately have "\<bar>M mod 2 ^ p\<bar> \<le> 2 ^ 53" using M by simp
    then show ?thesis unfolding fr by (rule is_doubleI)
  qed
qed

section \<open>Properties of the arithmetic operations\<close>

lemma ebind_Inr [simp]: "ebind (Inr x) f = f x"
  by (simp add: ebind_def)

lemma ebind_Inl [simp]: "ebind (Inl e) f = Inl e"
  by (simp add: ebind_def)

lemma ebind_eq_Inr_iff: "ebind m f = Inr y \<longleftrightarrow> (\<exists>x. m = Inr x \<and> f x = Inr y)"
  by (cases m) simp_all

lemma ebind_weak_cong: "m = m' \<Longrightarrow> ebind m f = ebind m' f"
  by simp

lemma c_trunc_minus: "c_trunc (- x) = - c_trunc x"
  by (auto simp: c_trunc_def ceiling_def)

lemma is_double_sub_trunc:
  assumes "is_double x"
  shows "is_double (x - of_int (c_trunc x))"
proof (cases "0 \<le> x")
  case True
  then show ?thesis using is_double_frac[OF assms] by (simp add: c_trunc_def)
next
  case False
  then have n: "0 \<le> - x" by simp
  have "is_double (- x)" using assms by (simp add: is_double_minus)
  then have "is_double (- x - of_int \<lfloor>- x\<rfloor>)" using n by (rule is_double_frac)
  then have "is_double (- (x - of_int (c_trunc x)))"
    using False by (simp add: c_trunc_def ceiling_def)
  then show ?thesis by (simp only: is_double_minus)
qed

lemma sub_trunc_bounds:
  "0 \<le> x \<Longrightarrow> 0 \<le> x - of_int (c_trunc x)"
  "0 \<le> x \<Longrightarrow> x - of_int (c_trunc x) < 1"
  "x < 0 \<Longrightarrow> x - of_int (c_trunc x) \<le> 0"
  "x < 0 \<Longrightarrow> - 1 < x - of_int (c_trunc x)"
  unfolding c_trunc_def by (simp; linarith)+

lemma dsub_trunc:
  "is_double x \<Longrightarrow> dsub x (i2d (c_trunc x)) = x - of_int (c_trunc x)"
  using is_double_sub_trunc[of x] by (simp add: dsub_def i2d_def is_double_def)

lemma int_chk_ok: "- (2 ^ 31) \<le> x \<Longrightarrow> x \<le> 2 ^ 31 - 1 \<Longrightarrow> int_chk x = Inr x"
  by (simp add: int_chk_def)

lemma c_trunc_abs_le:
  assumes "\<bar>x\<bar> \<le> of_int n"
  shows "\<bar>c_trunc x\<bar> \<le> n"
proof (cases "0 \<le> x")
  case True
  then have "x \<le> of_int n" using assms by simp
  then have "\<lfloor>x\<rfloor> \<le> n" by (simp add: floor_le_iff)
  moreover have "0 \<le> \<lfloor>x\<rfloor>" using True by simp
  ultimately show ?thesis using True by (simp add: c_trunc_def)
next
  case False
  then have "of_int (- n) \<le> x" using assms by simp
  then have "- n \<le> \<lceil>x\<rceil>" by (simp add: le_ceiling_iff)
  moreover have "\<lceil>x\<rceil> \<le> 0" using False by (simp add: ceiling_le_iff)
  ultimately show ?thesis using False by (simp add: c_trunc_def)
qed

lemma rnd_between:
  "lo \<le> x \<Longrightarrow> x \<le> hi \<Longrightarrow> is_double lo \<Longrightarrow> is_double hi \<Longrightarrow> lo \<le> rnd x \<and> rnd x \<le> hi"
  by (simp add: rnd_le_double rnd_ge_double)

lemma is_double_small_ints:
  "is_double 0" "is_double 1" "is_double 2" "is_double 4"
  "is_double (- 2)" "is_double (- 3)" "is_double (- 4)"
  using is_double_of_int[of 1] is_double_of_int[of 2] is_double_of_int[of 4]
    is_double_of_int[of "- 2"] is_double_of_int[of "- 3"] is_double_of_int[of "- 4"]
  by simp_all

lemma raw_combination_bounds:
  assumes "0 \<le> s1" "s1 < 1" "0 \<le> s4" "s4 < 1" "0 \<le> s5" "s5 < 1" "0 \<le> s6" "s6 < 1"
  shows "- 4 \<le> raw_combination s1 s4 s5 s6 \<and> raw_combination s1 s4 s5 s6 \<le> 4"
proof -
  define a where "a = dmul 4 s1"
  define b where "b = dmul 2 s4"
  define c where "c = dsub a b"
  define e where "e = dsub c s5"
  have a: "0 \<le> a \<and> a \<le> 4"
    unfolding a_def dmul_def using assms by (intro rnd_between is_double_small_ints) simp_all
  have b: "0 \<le> b \<and> b \<le> 2"
    unfolding b_def dmul_def using assms by (intro rnd_between is_double_small_ints) simp_all
  have c: "- 2 \<le> c \<and> c \<le> 4"
    unfolding c_def dsub_def using a b by (intro rnd_between is_double_small_ints) simp_all
  have e: "- 3 \<le> e \<and> e \<le> 4"
    unfolding e_def dsub_def using c assms by (intro rnd_between is_double_small_ints) simp_all
  have "- 4 \<le> dsub e s6 \<and> dsub e s6 \<le> 4"
    unfolding dsub_def using e assms by (intro rnd_between is_double_small_ints) simp_all
  then show ?thesis by (simp add: raw_combination_def e_def c_def a_def b_def)
qed

lemma bitlen_numeral_simps:
  "bitlen 1 = 1"
  "bitlen (numeral Num.One) = 1"
  "bitlen (numeral (Num.Bit0 n)) = bitlen (numeral n) + 1"
  "bitlen (numeral (Num.Bit1 n)) = bitlen (numeral n) + 1"
proof -
  show "bitlen 1 = 1" by (subst compute_bitlen) simp
  then show "bitlen (numeral Num.One) = 1" by simp
  show "bitlen (numeral (Num.Bit0 n)) = bitlen (numeral n) + 1"
    by (subst compute_bitlen) simp
  have "numeral (Num.Bit1 n) div (2::int) = numeral n" by simp
  then show "bitlen (numeral (Num.Bit1 n)) = bitlen (numeral n) + 1"
    by (subst compute_bitlen) simp
qed

lemma rnd_eval:
  "0 < x \<Longrightarrow> rnd x = of_int (rhe (x / 2 powi (expo x - 52))) * 2 powi (expo x - 52)"
  "x < 0 \<Longrightarrow> rnd x = - rnd (- x)"
  by (simp_all add: rnd_pos_form rnd_minus)

lemma expo_eval:
  "1 \<le> x \<Longrightarrow> expo x = bitlen \<lfloor>x\<rfloor> - 1"
  "x < 1 \<Longrightarrow> expo x = - bitlen (\<lceil>1 / x\<rceil> - 1)"
  by (simp_all add: expo_def)

lemma rhe_eval:
  "y - of_int \<lfloor>y\<rfloor> < 1/2 \<Longrightarrow> rhe y = \<lfloor>y\<rfloor>"
  "1/2 < y - of_int \<lfloor>y\<rfloor> \<Longrightarrow> rhe y = \<lfloor>y\<rfloor> + 1"
  "y - of_int \<lfloor>y\<rfloor> = 1/2 \<Longrightarrow> rhe y = (if even \<lfloor>y\<rfloor> then \<lfloor>y\<rfloor> else \<lfloor>y\<rfloor> + 1)"
  by (simp_all add: rhe_def Let_def)

lemma c_trunc_eval:
  "0 \<le> x \<Longrightarrow> c_trunc x = \<lfloor>x\<rfloor>"
  "x < 0 \<Longrightarrow> c_trunc x = \<lceil>x\<rceil>"
  by (simp_all add: c_trunc_def)

lemma int_chk_eval:
  "- 2147483648 \<le> x \<Longrightarrow> x \<le> 2147483647 \<Longrightarrow> int_chk x = Inr x"
  "2147483647 < x \<Longrightarrow> int_chk x = Inl IntOverflow"
  "x < - 2147483648 \<Longrightarrow> int_chk x = Inl IntOverflow"
  by (simp_all add: int_chk_def)

lemma ddiv_eval:
  "y \<noteq> 0 \<Longrightarrow> ddiv x y = Inr (rnd (x / y))"
  "ddiv x 0 = Inl DivByZero"
  by (simp_all add: ddiv_def)

lemmas dbl_eval = rnd_eval expo_eval rhe_eval c_trunc_eval int_chk_eval ddiv_eval bitlen_numeral_simps
  dadd_def dsub_def dmul_def c_floor_def c_pow16_def i2d_def d2i_def Let_def

section \<open>The table of powers of two\<close>

lemma int_chk_num: "- 2147483648 \<le> x \<Longrightarrow> x \<le> 2147483647 \<Longrightarrow> int_chk x = Inr x"
  by (simp add: int_chk_def)

lemma pow_table_length [simp]: "h < len \<Longrightarrow> length (pow_table len h) = len"
  by (simp add: pow_table_def)

lemma pow_table_nth_low: "i \<le> h \<Longrightarrow> pow_table len h ! i = 2 ^ i"
proof -
  assume a: "i \<le> h"
  then have "i < length (map (\<lambda>i. (2::int) ^ i) [0..<Suc h])" by simp
  then have "pow_table len h ! i = map (\<lambda>i. (2::int) ^ i) [0..<Suc h] ! i"
    unfolding pow_table_def by (rule nth_append_left)
  also have "\<dots> = 2 ^ ([0..<Suc h] ! i)" using a by (intro nth_map) simp
  also have "[0..<Suc h] ! i = i" using a by (metis add_0 nth_upt less_Suc_eq_le)
  finally show ?thesis .
qed

lemma pow_table_nth_high: "h < i \<Longrightarrow> i < len \<Longrightarrow> pow_table len h ! i = 0"
  by (simp add: pow_table_def nth_append)

lemma rd_pow_table:
  "h < len \<Longrightarrow> rd (pow_table len h) (int i) =
     (if i \<le> h then Inr (2 ^ i) else if i < len then Inr 0 else Inl OutOfBounds)"
  by (simp add: rd_def pow_table_nth_low pow_table_nth_high)

lemma rd_neg: "i < 0 \<Longrightarrow> rd tbl i = Inl OutOfBounds"
  by (simp add: rd_def)

lemma pow_table_Suc:
  assumes "Suc h < len"
  shows "(pow_table len h)[Suc h := 2 ^ Suc h] = pow_table len (Suc h)"
proof (rule nth_equalityI)
  show "length ((pow_table len h)[Suc h := 2 ^ Suc h]) = length (pow_table len (Suc h))"
    using assms by simp
next
  fix i assume "i < length ((pow_table len h)[Suc h := 2 ^ Suc h])"
  then have i: "i < len" using assms by simp
  consider "i \<le> h" | "i = Suc h" | "Suc h < i" by linarith
  then show "(pow_table len h)[Suc h := 2 ^ Suc h] ! i = pow_table len (Suc h) ! i"
  proof cases
    case 1
    then show ?thesis using assms by (simp add: pow_table_nth_low)
  next
    case 2
    then show ?thesis using assms by (simp add: pow_table_nth_low)
  next
    case 3
    then show ?thesis using assms i by (simp add: pow_table_nth_high)
  qed
qed

lemma wr_pow_table:
  "Suc h < len \<Longrightarrow> wr (pow_table len h) (int h + 1) (2 ^ Suc h) = Inr (pow_table len (Suc h))"
  using pow_table_Suc[of h len] by (simp add: wr_def nat_add_distrib)

lemma wr_fresh: "0 < len \<Longrightarrow> wr (replicate len 0) 0 1 = Inr (pow_table len 0)"
proof -
  assume l: "0 < len"
  have "(replicate len (0::int))[0 := 1] = pow_table len 0"
  proof (rule nth_equalityI)
    show "length ((replicate len (0::int))[0 := 1]) = length (pow_table len 0)" using l by simp
  next
    fix i assume "i < length ((replicate len (0::int))[0 := 1])"
    then have i: "i < len" by simp
    show "(replicate len (0::int))[0 := 1] ! i = pow_table len 0 ! i"
    proof (cases "i = 0")
      case True then show ?thesis using l by (simp add: pow_table_nth_low)
    next
      case False then show ?thesis using i by (simp add: pow_table_nth_high)
    qed
  qed
  then show ?thesis using l by (simp add: wr_def)
qed

lemma tbl_top_le_iff: "tbl_top n \<le> h \<longleftrightarrow> n \<le> 2 ^ h"
proof -
  have "tbl_top n \<le> h \<longleftrightarrow> bitlen (\<lceil>n\<rceil> - 1) \<le> int h"
    by (simp add: tbl_top_def nat_le_iff)
  also have "\<dots> \<longleftrightarrow> \<lceil>n\<rceil> - 1 < 2 ^ h" by (simp add: bitlen_le_iff_power)
  also have "\<dots> \<longleftrightarrow> \<lceil>n\<rceil> \<le> 2 ^ h" by auto
  also have "\<dots> \<longleftrightarrow> n \<le> of_int (2 ^ h)" by (rule ceiling_le_iff)
  finally show ?thesis by simp
qed

lemma tbl_top_gt_iff: "h < tbl_top n \<longleftrightarrow> 2 ^ h < n"
  using tbl_top_le_iff[of n h] by auto

lemma i2d_pow2_less: "i2d (2 ^ h) < n \<longleftrightarrow> h < tbl_top n"
  by (simp add: i2d_def tbl_top_gt_iff)

lemma build_tbl_stop:
  assumes "tbl_top n \<le> h" "h < len"
  shows "build_tbl (pow_table len h) (int h) n = Inr (pow_table len h, int h)"
proof -
  have "\<not> h < tbl_top n" using assms by simp
  then show ?thesis using assms(2)
    by (subst build_tbl.simps) (simp add: rd_pow_table i2d_pow2_less)
qed

lemma build_tbl_grow:
  assumes "h \<le> tbl_top n" "tbl_top n \<le> 30" "tbl_top n < len"
  shows "build_tbl (pow_table len h) (int h) n = Inr (pow_table len (tbl_top n), int (tbl_top n))"
  using assms(1)
proof (induction "tbl_top n - h" arbitrary: h)
  case 0
  then have "h = tbl_top n" by simp
  then show ?case using build_tbl_stop[of n h len] assms by simp
next
  case (Suc m)
  then have t: "h < tbl_top n" by simp
  have chk: "int_chk (2 ^ h * 2) = Inr (2 ^ Suc h)"
  proof -
    have "(2::int) ^ Suc h \<le> 2 ^ 30" using t assms by (intro power_increasing) simp_all
    then have "(2::int) ^ Suc h \<le> 1073741824" by simp
    moreover have "(0::int) \<le> 2 ^ Suc h" by simp
    ultimately have "int_chk (2 ^ Suc h) = Inr (2 ^ Suc h)" by (intro int_chk_num) linarith+
    then show ?thesis by (simp add: mult.commute)
  qed
  have w: "wr (pow_table len h) (int h + 1) (2 ^ Suc h) = Inr (pow_table len (Suc h))"
    using t assms by (intro wr_pow_table) simp
  have IH: "build_tbl (pow_table len (Suc h)) (int (Suc h)) n
              = Inr (pow_table len (tbl_top n), int (tbl_top n))"
    using Suc.hyps(2) t by (intro Suc.hyps(1)) simp_all
  have hl: "h < len" using t assms by simp
  have "build_tbl (pow_table len h) (int h) n
          = ebind (int_chk (2 ^ h * 2)) (\<lambda>v2.
            ebind (wr (pow_table len h) (int h + 1) v2) (\<lambda>tbl'. build_tbl tbl' (int h + 1) n))"
    using t hl by (subst build_tbl.simps) (simp add: rd_pow_table i2d_pow2_less)
  also have "\<dots> = build_tbl (pow_table len (Suc h)) (int h + 1) n"
    by (simp only: chk w ebind_Inr)
  also have "int h + 1 = int (Suc h)" by simp
  finally show ?case using IH by simp
qed

lemma init_table_fresh:
  assumes "tbl_top n \<le> 30" "tbl_top n < len"
  shows "init_table (fresh_state len) n = Inr (built_state len (tbl_top n))"
proof -
  have "build_tbl (pow_table len 0) (int 0) n = Inr (pow_table len (tbl_top n), int (tbl_top n))"
    using assms by (intro build_tbl_grow) simp_all
  then show ?thesis using assms wr_fresh[of len]
    by (simp add: init_table_def fresh_state_def built_state_def)
qed

lemma init_table_built [simp]: "init_table (built_state len h) n = Inr (built_state len h)"
  by (simp add: init_table_def built_state_def)

lemma scan_pow_table:
  assumes "b \<le> tbl_top n" "tbl_top n \<le> h" "h < len"
  shows "scan (pow_table len h) (int b) n = Inr (int (tbl_top n))"
  using assms
proof (induction "tbl_top n - b" arbitrary: b)
  case 0
  then have "b = tbl_top n" by simp
  then show ?case using 0
    by (subst scan.simps) (simp add: rd_pow_table i2d_pow2_less)
next
  case (Suc m)
  then have lt: "b < tbl_top n" by simp
  have IH: "scan (pow_table len h) (int (Suc b)) n = Inr (int (tbl_top n))"
    using Suc.hyps(2) lt Suc.prems by (intro Suc.hyps(1)) simp_all
  show ?case using lt IH Suc.prems
    by (subst scan.simps) (simp add: rd_pow_table i2d_pow2_less add.commute)
qed

lemma scan_pow_table_oob:
  assumes "h < tbl_top n" "h < len" "b \<le> len"
  shows "scan (pow_table len h) (int b) n = Inl OutOfBounds"
  using assms
proof (induction "len - b" arbitrary: b)
  case 0
  then have "b = len" by simp
  then show ?case using 0 by (subst scan.simps) (simp add: rd_pow_table)
next
  case (Suc m)
  then have lt: "b < len" by simp
  have IH: "scan (pow_table len h) (int (Suc b)) n = Inl OutOfBounds"
    using Suc.hyps(2) lt Suc.prems by (intro Suc.hyps(1)) simp_all
  have npos: "0 < n" using Suc.prems(1) tbl_top_gt_iff[of h n]
    by (smt (verit) zero_less_power)
  show ?case
  proof (cases "b \<le> h")
    case True
    then have "b < tbl_top n" using Suc.prems by simp
    then show ?thesis using IH Suc.prems True
      by (subst scan.simps) (simp add: rd_pow_table i2d_pow2_less add.commute)
  next
    case False
    then show ?thesis using IH Suc.prems lt npos
      by (subst scan.simps) (simp add: rd_pow_table i2d_def add.commute)
  qed
qed

section \<open>expoMod and its static table\<close>

lemma bits_needed_bounds:
  assumes "1 \<le> n"
  shows "0 \<le> bits_needed n" "2 ^ nat (bits_needed n) \<le> n" "n < 2 ^ (nat (bits_needed n) + 1)"
proof -
  define T where "T = tbl_top n"
  have le: "n \<le> 2 ^ T" using tbl_top_le_iff[of n T] by (simp add: T_def)
  show "0 \<le> bits_needed n" "2 ^ nat (bits_needed n) \<le> n" "n < 2 ^ (nat (bits_needed n) + 1)"
  proof (atomize (full), cases "(2::real) ^ T = n")
    case True
    then have "bits_needed n = int T" by (simp add: bits_needed_def i2d_def T_def)
    then show "0 \<le> bits_needed n \<and> 2 ^ nat (bits_needed n) \<le> n \<and> n < 2 ^ (nat (bits_needed n) + 1)"
      using True assms by simp
  next
    case False
    then have lt: "n < 2 ^ T" using le by simp
    have "T \<noteq> 0" using lt assms by (auto intro: ccontr)
    then obtain T' where T': "T = Suc T'" by (cases T) auto
    have "T' < tbl_top n" by (simp add: T_def[symmetric] T')
    then have "2 ^ T' < n" by (simp only: tbl_top_gt_iff)
    moreover have "bits_needed n = int T'" using False by (simp add: bits_needed_def i2d_def T_def[symmetric] T')
    ultimately show "0 \<le> bits_needed n \<and> 2 ^ nat (bits_needed n) \<le> n \<and> n < 2 ^ (nat (bits_needed n) + 1)"
      using lt by (simp add: T')
  qed
qed

lemma bits_needed_small:
  assumes "n < 1"
  shows "bits_needed n = - 1"
proof -
  have "n \<le> 2 ^ 0" using assms by simp
  then have "tbl_top n \<le> 0" by (simp only: tbl_top_le_iff)
  then show ?thesis using assms by (simp add: bits_needed_def i2d_def)
qed

lemma expoMod_built:
  assumes "h < len"
  shows "expoMod (built_state len h) n k =
     (if 1 \<le> n \<and> n \<le> 2 ^ h
      then ebind (pow_loop (nat (bits_needed n + 1)) k n (2 ^ nat (bits_needed n)) 1)
             (\<lambda>r. Inr (built_state len h, r))
      else Inl OutOfBounds)"
proof (cases "n \<le> 2 ^ h")
  case False
  then have "h < tbl_top n" by (simp add: tbl_top_gt_iff)
  then have "scan (pow_table len h) (int 0) n = Inl OutOfBounds"
    using assms by (intro scan_pow_table_oob) simp_all
  then show ?thesis using False by (simp add: expoMod_def built_state_def init_table_def)
next
  case True
  then have T: "tbl_top n \<le> h" by (simp only: tbl_top_le_iff)
  then have sc: "scan (pow_table len h) 0 n = Inr (int (tbl_top n))"
    using assms scan_pow_table[of 0 n h len] by simp
  have r1: "rd (pow_table len h) (int (tbl_top n)) = Inr (2 ^ tbl_top n)"
    using T assms by (simp add: rd_pow_table)
  have eq: "expoMod (built_state len h) n k =
      ebind (rd (pow_table len h) (bits_needed n)) (\<lambda>t.
      ebind (pow_loop (nat (bits_needed n + 1)) k n t 1) (\<lambda>r. Inr (built_state len h, r)))"
    unfolding expoMod_def init_table_built
    by (simp add: built_state_def sc r1 bits_needed_def Let_def)
  show ?thesis
  proof (cases "1 \<le> n")
    case False
    then have "bits_needed n = - 1" by (simp add: bits_needed_small)
    then show ?thesis using False eq by (simp add: rd_neg)
  next
    case True
    note n1 = this
    have b0: "0 \<le> bits_needed n" using bits_needed_bounds(1)[OF True] .
    have "bits_needed n \<le> int (tbl_top n)" by (simp add: bits_needed_def)
    then have le: "nat (bits_needed n) \<le> h" using T by simp
    have "rd (pow_table len h) (int (nat (bits_needed n))) = Inr (2 ^ nat (bits_needed n))"
      by (simp only: rd_pow_table[OF assms] le if_True)
    moreover have "int (nat (bits_needed n)) = bits_needed n" using b0 by simp
    ultimately have "rd (pow_table len h) (bits_needed n) = Inr (2 ^ nat (bits_needed n))"
      by (simp only:)
    then show ?thesis using eq n1 \<open>n \<le> 2 ^ h\<close> by simp
  qed
qed

lemma expoMod_fresh:
  assumes "tbl_top n \<le> 30" "tbl_top n < len"
  shows "expoMod (fresh_state len) n k = expoMod (built_state len (tbl_top n)) n k"
  unfolding expoMod_def init_table_fresh[OF assms] init_table_built ..

lemma reduce_errors: "reduce r k \<noteq> Inl OutOfBounds"
  by (auto simp: reduce_def ddiv_def d2i_def int_chk_def ebind_def split: sum.splits if_splits)

lemma pow_loop_no_oob: "pow_loop c k n t r \<noteq> Inl OutOfBounds"
proof (induction c arbitrary: n t r)
  case 0
  show ?case by simp
next
  case (Suc c)
  show ?case
    using Suc[of _ _ _] reduce_errors
    by (auto simp: ebind_def Let_def split: sum.splits if_splits prod.splits)
qed

lemma expoMod_built_oob_iff:
  assumes "h < len"
  shows "expoMod (built_state len h) n k = Inl OutOfBounds \<longleftrightarrow> \<not> (1 \<le> n \<and> n \<le> 2 ^ h)"
  using pow_loop_no_oob[of "nat (bits_needed n + 1)" k n "2 ^ nat (bits_needed n)" 1]
  by (auto simp: expoMod_built[OF assms] ebind_def split: sum.splits)

lemma expoMod_built_state:
  assumes "h < len" "expoMod (built_state len h) n k = Inr (st, r)"
  shows "st = built_state len h"
  using assms by (auto simp: expoMod_built[OF assms(1)] ebind_def split: sum.splits if_splits)

section \<open>Call sequences and evaluation rules\<close>

lemma expoMod_calls_built:
  assumes "h < len" "expoMod_calls (built_state len h) cs = Inr (st, rs)"
  shows "st = built_state len h \<and> (\<forall>(n, k)\<in>set cs. 1 \<le> n \<and> n \<le> 2 ^ h)"
  using assms(2)
proof (induction cs arbitrary: rs)
  case Nil
  then show ?case by simp
next
  case (Cons c cs)
  obtain n k where c: "c = (n, k)" by (cases c)
  from Cons.prems obtain st1 r where
    e: "expoMod (built_state len h) n k = Inr (st1, r)"
    and rest: "ebind (expoMod_calls st1 cs) (\<lambda>(st2, rs). Inr (st2, r # rs)) = Inr (st, rs)"
    by (auto simp: c ebind_eq_Inr_iff)
  have st1: "st1 = built_state len h" using assms(1) e by (rule expoMod_built_state)
  have nb: "1 \<le> n \<and> n \<le> 2 ^ h"
    using e expoMod_built[OF assms(1), of n k] by (auto split: if_splits)
  from rest obtain rs' where "expoMod_calls (built_state len h) cs = Inr (st, rs')"
    by (auto simp: st1 ebind_eq_Inr_iff)
  then have "st = built_state len h \<and> (\<forall>(n, k)\<in>set cs. 1 \<le> n \<and> n \<le> 2 ^ h)"
    by (rule Cons.IH)
  then show ?case using nb by (simp add: c)
qed

lemma tbl_top_numeral_eval:
  "tbl_top 1 = 0"
  "tbl_top (numeral w) = nat (bitlen (numeral w - 1))"
  by (simp_all add: tbl_top_def)

lemma pow_loop_numeral:
  "pow_loop (numeral w) k n t r =
     ebind (if i2d t \<le> n
            then ebind (reduce (dmul r 16) k) (\<lambda>r1. Inr (r1, dsub n (i2d t)))
            else Inr (r, n)) (\<lambda>(r1, n1).
     let t1 = c_div2 t in
     ebind (if 1 \<le> t1 then reduce (dmul r1 r1) k else Inr r1) (\<lambda>r2.
       pow_loop (pred_numeral w) k n1 t1 r2))"
  by (simp add: numeral_eq_Suc)

lemmas expoMod_eval = pow_loop_numeral expoMod_fresh expoMod_built tbl_top_numeral_eval bits_needed_def
  reduce_def c_div2_def dbl_eval

section \<open>Exactness of the square-and-multiply loop\<close>

lemma dmul_int: "\<bar>a * b\<bar> \<le> 2 ^ 53 \<Longrightarrow> dmul (of_int a) (of_int b) = of_int (a * b)"
  using rnd_of_int[of "a * b"] by (simp add: dmul_def)

lemma dsub_int: "\<bar>a - b\<bar> \<le> 2 ^ 53 \<Longrightarrow> dsub (of_int a) (of_int b) = of_int (a - b)"
  using rnd_of_int[of "a - b"] by (simp add: dsub_def)

lemma rnd_nonneg: "0 \<le> x \<Longrightarrow> 0 \<le> rnd x"
  using rnd_mono[of 0 x] by simp

lemma reduce_exact:
  assumes "0 \<le> x" "x < 2 ^ 53" "1 \<le> k" "k \<le> 2 ^ 53" "x div k \<le> 2147483647"
  shows "reduce (of_int x) (of_int k) = Inr (of_int (x mod k))"
proof -
  define q where "q = rnd (of_int x / of_int k)"
  have k0: "(of_int k :: real) \<noteq> 0" using assms by simp
  have q0: "0 \<le> q" unfolding q_def using assms by (intro rnd_nonneg) simp
  have fl: "\<lfloor>q\<rfloor> = x div k" unfolding q_def using assms(1-4) by (rule floor_rnd_div)
  have d0: "0 \<le> x div k" using assms by (simp add: pos_imp_zdiv_nonneg_iff)
  have tr: "d2i q = Inr (x div k)"
    unfolding d2i_def c_trunc_def using q0 fl d0 assms(5) by (simp add: int_chk_num)
  have dm: "x = x div k * k + x mod k" by simp
  have m0: "0 \<le> x mod k" using assms by simp
  have qk: "x div k * k \<le> x" using dm m0 by linarith
  have qk0: "0 \<le> x div k * k" using d0 assms by simp
  have mul: "dmul (i2d (x div k)) (of_int k) = of_int (x div k * k)"
    unfolding i2d_def using qk qk0 assms by (intro dmul_int) simp
  have sub: "dsub (of_int x) (of_int (x div k * k)) = of_int (x - x div k * k)"
    using qk qk0 assms by (intro dsub_int) simp
  have "x - x div k * k = x mod k" using dm by linarith
  then show ?thesis
    using k0 tr mul sub by (simp add: reduce_def ddiv_def q_def[symmetric])
qed

lemma c_div2_pow2: "c_div2 (2 ^ Suc b) = 2 ^ b"
  by (simp add: c_div2_def)

lemma c_div2_one: "c_div2 1 = 0"
  by (simp add: c_div2_def)

lemma pow_loop_step:
  fixes k n r t :: int
  assumes "1 \<le> k" "k \<le> 94906265"
    and "0 \<le> n" "n \<le> 2 ^ 53" "0 \<le> t"
    and "0 \<le> r" "r < k \<or> (r = 1 \<and> t \<le> n)"
  shows "pow_loop (Suc c) (of_int k) (of_int n) t (of_int r) =
     pow_loop c (of_int k)
       (of_int (if t \<le> n then n - t else n))
       (c_div2 t)
       (of_int (if 1 \<le> c_div2 t
                then ((if t \<le> n then (r * 16) mod k else r) * (if t \<le> n then (r * 16) mod k else r)) mod k
                else (if t \<le> n then (r * 16) mod k else r)))"
proof -
  define r1 where "r1 = (if t \<le> n then (r * 16) mod k else r)"
  define n1 where "n1 = (if t \<le> n then n - t else n)"
  have rb: "r \<le> 94906265" using assms by linarith
  have first: "(if i2d t \<le> of_int n
            then ebind (reduce (dmul (of_int r) 16) (of_int k)) (\<lambda>r1. Inr (r1, dsub (of_int n) (i2d t)))
            else Inr (of_int r, of_int n)) = Inr (of_int r1 :: real, of_int n1 :: real)"
  proof (cases "t \<le> n")
    case True
    have m: "dmul (of_int r) 16 = of_int (r * 16)"
      using dmul_int[of r 16] rb assms(6) by simp
    have "(r * 16) div k \<le> (r * 16) div 1" using assms(1,6) by (intro zdiv_mono2) simp_all
    then have "(r * 16) div k \<le> 2147483647" using rb by simp
    then have "reduce (of_int (r * 16)) (of_int k) = Inr (of_int ((r * 16) mod k))"
      using rb assms by (intro reduce_exact) simp_all
    moreover have "dsub (of_int n) (i2d t) = of_int (n - t)"
      unfolding i2d_def using True assms by (intro dsub_int) simp
    ultimately show ?thesis using True by (simp add: m r1_def n1_def i2d_def)
  next
    case False
    then show ?thesis by (simp add: r1_def n1_def i2d_def)
  qed
  have r1: "0 \<le> r1" "r1 < k"
    using assms by (auto simp: r1_def)
  have second: "(if 1 \<le> c_div2 t then reduce (dmul (of_int r1) (of_int r1)) (of_int k) else Inr (of_int r1))
       = Inr (of_int (if 1 \<le> c_div2 t then (r1 * r1) mod k else r1) :: real)"
  proof (cases "1 \<le> c_div2 t")
    case True
    have "r1 \<le> 94906264" using r1 assms by linarith
    then have "r1 * r1 \<le> 94906264 * 94906264" using r1(1) by (intro mult_mono) simp_all
    then have sq: "r1 * r1 < 2 ^ 53" by simp
    have sq0: "0 \<le> r1 * r1" using r1 by simp
    have m: "dmul (of_int r1) (of_int r1) = of_int (r1 * r1)"
      using sq sq0 by (intro dmul_int) simp
    have "r1 * r1 \<le> r1 * k" using r1 by (intro mult_left_mono) simp_all
    then have "(r1 * r1) div k \<le> (r1 * k) div k" using assms(1) by (intro zdiv_mono1) simp_all
    then have "(r1 * r1) div k \<le> r1" using assms(1) by simp
    then have "(r1 * r1) div k \<le> 2147483647" using \<open>r1 \<le> 94906264\<close> by simp
    then have "reduce (of_int (r1 * r1)) (of_int k) = Inr (of_int ((r1 * r1) mod k))"
      using sq sq0 r1 assms by (intro reduce_exact) simp_all
    then show ?thesis using True by (simp add: m)
  next
    case False
    then show ?thesis by simp
  qed
  show ?thesis
    unfolding pow_loop.simps first
    by (simp add: Let_def second r1_def[symmetric] n1_def[symmetric])
qed

lemma pow_loop_exact:
  fixes k n r :: int
  assumes "1 \<le> k" "k \<le> 94906265"
    and "0 \<le> n" "n < 2 ^ Suc b" "n \<le> 2 ^ 53"
    and "0 \<le> r" "r < k \<or> (r = 1 \<and> 2 ^ b \<le> n)"
  shows "pow_loop (Suc b) (of_int k) (of_int n) (2 ^ b) (of_int r)
           = Inr (of_int ((r ^ (2 ^ b) * 16 ^ nat n) mod k))"
  using assms(3-)
proof (induction b arbitrary: n r)
  case 0
  have st: "pow_loop (Suc 0) (of_int k) (of_int n) 1 (of_int r)
      = Inr (of_int (if 1 \<le> n then (r * 16) mod k else r))"
    using pow_loop_step[OF assms(1,2) "0.prems"(1,3) _ "0.prems"(4), of 1 0] "0.prems"(5)
    by (simp add: c_div2_one)
  show ?case
  proof (cases "1 \<le> n")
    case True
    then have "n = 1" using "0.prems" by simp
    then show ?thesis using st by (simp add: mult.commute)
  next
    case False
    then have n: "n = 0" using "0.prems" by simp
    then have "r < k" using "0.prems" by simp
    then show ?thesis using st n "0.prems" by simp
  qed
next
  case (Suc b)
  define bit where "bit = (2 ^ Suc b \<le> n)"
  define r1 where "r1 = (if bit then (r * 16) mod k else r)"
  define n1 where "n1 = (if bit then n - 2 ^ Suc b else n)"
  define r2 where "r2 = (r1 * r1) mod k"
  have t0: "(0::int) \<le> 2 ^ Suc b" by simp
  have t1: "(1::int) \<le> 2 ^ b" by simp
  have st: "pow_loop (Suc (Suc b)) (of_int k) (of_int n) (2 ^ Suc b) (of_int r)
      = pow_loop (Suc b) (of_int k) (of_int n1) (2 ^ b) (of_int r2)"
    using pow_loop_step[OF assms(1,2) Suc.prems(1,3) t0 Suc.prems(4,5), of "Suc b"] t1
    unfolding c_div2_pow2 by (simp only: if_True r1_def r2_def n1_def bit_def)
  have n1: "0 \<le> n1" "n1 < 2 ^ Suc b" "n1 \<le> 2 ^ 53"
    using Suc.prems by (auto simp: n1_def bit_def)
  have r2: "0 \<le> r2" "r2 < k" using assms(1) by (simp_all add: r2_def)
  have IH: "pow_loop (Suc b) (of_int k) (of_int n1) (2 ^ b) (of_int r2)
      = Inr (of_int ((r2 ^ (2 ^ b) * 16 ^ nat n1) mod k))"
    using n1 r2 by (intro Suc.IH) simp_all
  have r1m: "r1 mod k = (r * 16 ^ (if bit then 1 else 0)) mod k"
    by (simp add: r1_def)
  have "(r2 ^ (2 ^ b)) mod k = ((r1 * r1) ^ (2 ^ b)) mod k"
    unfolding r2_def by (rule power_mod)
  also have "(r1 * r1) ^ (2 ^ b) = r1 ^ (2 ^ Suc b)"
    by (simp add: power2_eq_square[symmetric] power_mult[symmetric])
  also have "(r1 ^ (2 ^ Suc b)) mod k = ((r1 mod k) ^ (2 ^ Suc b)) mod k"
    by (simp add: power_mod)
  also have "\<dots> = ((r * 16 ^ (if bit then 1 else 0)) ^ (2 ^ Suc b)) mod k"
    unfolding r1m by (simp add: power_mod)
  finally have A: "(r2 ^ (2 ^ b)) mod k = ((r * 16 ^ (if bit then 1 else 0)) ^ (2 ^ Suc b)) mod k" .
  have "n = (if bit then 2 ^ Suc b else 0) + n1" by (simp add: n1_def)
  then have "nat n = nat ((if bit then 2 ^ Suc b else 0) + n1)" by simp
  also have "\<dots> = nat (if bit then 2 ^ Suc b else 0) + nat n1"
    using n1(1) by (intro nat_add_distrib) simp_all
  also have "nat (if bit then 2 ^ Suc b else 0) = (if bit then 2 ^ Suc b else 0)"
  proof -
    have "nat ((2::int) ^ Suc b) = 2 ^ Suc b" by (simp only: nat_power_eq) simp
    then show ?thesis by (simp only: if_distrib[of nat] nat_0)
  qed
  finally have nn: "nat n = (if bit then 2 ^ Suc b else 0) + nat n1" .
  have "(r2 ^ (2 ^ b) * 16 ^ nat n1) mod k = ((r2 ^ (2 ^ b)) mod k * 16 ^ nat n1) mod k"
    by (simp add: mod_mult_left_eq)
  also have "\<dots> = ((r * 16 ^ (if bit then 1 else 0)) ^ (2 ^ Suc b) * 16 ^ nat n1) mod k"
    unfolding A by (simp add: mod_mult_left_eq)
  also have "(r * 16 ^ (if bit then 1 else 0)) ^ (2 ^ Suc b) * 16 ^ nat n1
      = r ^ (2 ^ Suc b) * (16::int) ^ nat n"
    unfolding nn by (cases bit) (simp_all add: power_mult_distrib power_add)
  finally show ?case using st IH by simp
qed

section \<open>Exactness of expoMod\<close>

lemma expoMod_exact_built:
  fixes n k :: int
  assumes "h < len" "h \<le> 30" "1 \<le> n" "n \<le> 2 ^ h" "1 \<le> k" "k \<le> 94906265"
  shows "expoMod (built_state len h) (of_int n) (of_int k)
           = Inr (built_state len h, of_int (16 ^ nat n mod k))"
proof -
  define b where "b = nat (bits_needed (of_int n))"
  have n1: "(1::real) \<le> of_int n" using assms by simp
  have nh: "(of_int n :: real) \<le> 2 ^ h"
  proof -
    have "(of_int n :: real) \<le> of_int (2 ^ h)" using assms(4) by (simp only: of_int_le_iff)
    then show ?thesis by simp
  qed
  have b0: "0 \<le> bits_needed (of_int n)" using bits_needed_bounds(1)[OF n1] .
  have lo: "2 ^ b \<le> n"
  proof -
    have "(of_int (2 ^ b) :: real) \<le> of_int n"
      using bits_needed_bounds(2)[OF n1] by (simp add: b_def)
    then show ?thesis by (simp only: of_int_le_iff)
  qed
  have hi: "n < 2 ^ Suc b"
  proof -
    have "(of_int n :: real) < of_int (2 ^ Suc b)"
      using bits_needed_bounds(3)[OF n1] by (simp add: b_def)
    then show ?thesis by (simp only: of_int_less_iff)
  qed
  have "(2::int) ^ h \<le> 2 ^ 30" using assms(2) by (intro power_increasing) simp_all
  then have n53: "n \<le> 2 ^ 53" using assms(4) by simp
  have c: "nat (bits_needed (of_int n) + 1) = Suc b" using b0 by (simp add: b_def)
  have "pow_loop (Suc b) (of_int k) (of_int n) (2 ^ b) (of_int 1)
           = Inr (of_int ((1 ^ (2 ^ b) * 16 ^ nat n) mod k))"
    using assms lo hi n53 by (intro pow_loop_exact) simp_all
  then have "pow_loop (Suc b) (of_int k) (of_int n) (2 ^ b) 1 = Inr (of_int (16 ^ nat n mod k))"
    by simp
  then show ?thesis
    using n1 nh by (simp add: expoMod_built[OF assms(1)] c b_def[symmetric])
qed

lemma tbl_top_of_int_le:
  fixes n :: int
  assumes "n \<le> 2 ^ h"
  shows "tbl_top (of_int n) \<le> h"
proof -
  have "(of_int n :: real) \<le> of_int (2 ^ h)" using assms by (simp only: of_int_le_iff)
  then have "(of_int n :: real) \<le> 2 ^ h" by simp
  then show ?thesis by (simp only: tbl_top_le_iff)
qed

lemma of_int_le_pow_tbl_top:
  fixes n :: int
  shows "n \<le> 2 ^ tbl_top (of_int n)"
proof -
  have "(of_int n :: real) \<le> 2 ^ tbl_top (of_int n)"
    using tbl_top_le_iff[of "of_int n" "tbl_top (of_int n)"] by simp
  then have "(of_int n :: real) \<le> of_int (2 ^ tbl_top (of_int n))" by simp
  then show ?thesis by (simp only: of_int_le_iff)
qed

lemma expoMod_exact_fresh:
  fixes n k :: int
  assumes "30 < len" "1 \<le> n" "n \<le> 2 ^ 30" "1 \<le> k" "k \<le> 94906265"
  shows "expoMod (fresh_state len) (of_int n) (of_int k)
           = Inr (built_state len (tbl_top (of_int n)), of_int (16 ^ nat n mod k))"
proof -
  have t: "tbl_top (of_int n) \<le> 30" using assms(3) by (rule tbl_top_of_int_le)
  then have l: "tbl_top (of_int n) < len" using assms(1) by simp
  show ?thesis
    unfolding expoMod_fresh[OF t l]
    using l t assms(2) of_int_le_pow_tbl_top assms(4,5) by (rule expoMod_exact_built)
qed

section \<open>The chunk loop\<close>

lemma frac1_bounds: "0 \<le> frac1 x" "frac1 x < 1"
  unfolding frac1_def by linarith+

lemma dsub_floor:
  "0 \<le> x \<Longrightarrow> is_double x \<Longrightarrow> dsub x (c_floor x) = frac1 x"
  using is_double_frac[of x] by (simp add: dsub_def c_floor_def frac1_def is_double_def)

lemma spec_term_nonneg:
  assumes "1 \<le> 8 * k + j"
  shows "0 \<le> spec_term j d k"
proof -
  have "0 \<le> (16::int) ^ nat (d - k) mod (8 * k + j)" using assms by simp
  then have "(0::real) \<le> of_int (16 ^ nat (d - k) mod (8 * k + j)) / of_int (8 * k + j)"
    using assms by (intro divide_nonneg_nonneg) simp_all
  then show ?thesis unfolding spec_term_def by (rule rnd_nonneg)
qed

lemma lpt_step_built:
  assumes "h < len" "h \<le> 30"
    and "0 \<le> k" "k < kinit + terms" "kinit + terms \<le> 2147483647"
    and "1 \<le> 8 * k + j" "8 * k + j \<le> 94906265"
    and "1 \<le> d - k" "d - k \<le> 2 ^ h" "0 \<le> s" "0 \<le> j"
  shows "lpt_loop (built_state len h) terms kinit j d k s
       = lpt_loop (built_state len h) terms kinit j d (k + 1) (frac1 (dadd s (spec_term j d k)))"
proof -
  have c1: "int_chk (kinit + terms) = Inr (kinit + terms)"
    using assms by (intro int_chk_num) simp_all
  have c2: "int_chk (8 * k) = Inr (8 * k)" using assms by (intro int_chk_num) linarith+
  have c3: "int_chk (8 * k + j) = Inr (8 * k + j)" using assms by (intro int_chk_num) linarith+
  have "(2::int) ^ h \<le> 2 ^ 30" using assms(2) by (intro power_increasing) simp_all
  then have "d - k \<le> 1073741824" using assms by simp
  then have c4: "int_chk (d - k) = Inr (d - k)" using assms by (intro int_chk_num) linarith+
  have c5: "int_chk (k + 1) = Inr (k + 1)" using assms by (intro int_chk_num) linarith+
  have e: "expoMod (built_state len h) (i2d (d - k)) (i2d (8 * k + j))
      = Inr (built_state len h, of_int (16 ^ nat (d - k) mod (8 * k + j)))"
    unfolding i2d_def using assms by (intro expoMod_exact_built) simp_all
  have den: "i2d (8 * k + j) \<noteq> 0" using assms by (simp add: i2d_def)
  have q: "ddiv (of_int (16 ^ nat (d - k) mod (8 * k + j))) (i2d (8 * k + j)) = Inr (spec_term j d k)"
    using den by (simp add: ddiv_def spec_term_def i2d_def)
  have s1: "0 \<le> dadd s (spec_term j d k)"
    unfolding dadd_def using assms spec_term_nonneg[of k j d] by (intro rnd_nonneg) simp
  have fr: "dsub (dadd s (spec_term j d k)) (c_floor (dadd s (spec_term j d k)))
      = frac1 (dadd s (spec_term j d k))"
    using s1 by (intro dsub_floor) (simp_all add: dadd_def is_double_rnd)
  show ?thesis
    by (subst lpt_loop.simps) (simp add: c1 c2 c3 c4 c5 e q fr assms(4) Let_def)
qed

lemma lpt_step_fresh:
  assumes "30 < len"
    and "0 \<le> k" "k < kinit + terms" "kinit + terms \<le> 2147483647"
    and "1 \<le> 8 * k + j" "8 * k + j \<le> 94906265"
    and "1 \<le> d - k" "d - k \<le> 2 ^ 30" "0 \<le> s" "0 \<le> j"
  shows "lpt_loop (fresh_state len) terms kinit j d k s
       = lpt_loop (built_state len (tbl_top (of_int (d - k)))) terms kinit j d (k + 1)
           (frac1 (dadd s (spec_term j d k)))"
proof -
  have c1: "int_chk (kinit + terms) = Inr (kinit + terms)"
    using assms by (intro int_chk_num) simp_all
  have c2: "int_chk (8 * k) = Inr (8 * k)" using assms by (intro int_chk_num) linarith+
  have c3: "int_chk (8 * k + j) = Inr (8 * k + j)" using assms by (intro int_chk_num) linarith+
  have "d - k \<le> 1073741824" using assms by simp
  then have c4: "int_chk (d - k) = Inr (d - k)" using assms by (intro int_chk_num) linarith+
  have c5: "int_chk (k + 1) = Inr (k + 1)" using assms by (intro int_chk_num) linarith+
  have e: "expoMod (fresh_state len) (i2d (d - k)) (i2d (8 * k + j))
      = Inr (built_state len (tbl_top (of_int (d - k))), of_int (16 ^ nat (d - k) mod (8 * k + j)))"
    unfolding i2d_def using assms by (intro expoMod_exact_fresh) simp_all
  have den: "i2d (8 * k + j) \<noteq> 0" using assms by (simp add: i2d_def)
  have q: "ddiv (of_int (16 ^ nat (d - k) mod (8 * k + j))) (i2d (8 * k + j)) = Inr (spec_term j d k)"
    using den by (simp add: ddiv_def spec_term_def i2d_def)
  have s1: "0 \<le> dadd s (spec_term j d k)"
    unfolding dadd_def using assms spec_term_nonneg[of k j d] by (intro rnd_nonneg) simp
  have fr: "dsub (dadd s (spec_term j d k)) (c_floor (dadd s (spec_term j d k)))
      = frac1 (dadd s (spec_term j d k))"
    using s1 by (intro dsub_floor) (simp_all add: dadd_def is_double_rnd)
  show ?thesis
    by (subst lpt_loop.simps) (simp add: c1 c2 c3 c4 c5 e q fr assms(3) Let_def)
qed

lemma lpt_loop_built_spec:
  assumes "h < len" "h \<le> 30" "1 \<le> j"
    and "kend = kinit + terms" "kend \<le> d" "8 * (kend - 1) + j \<le> 94906265"
    and "m = nat (kend - k)" "0 \<le> k" "k \<le> kend" "d - k \<le> 2 ^ h" "0 \<le> s"
  shows "lpt_loop (built_state len h) terms kinit j d k s
       = Inr (built_state len h, chunk_sum_spec m k j d s)"
  using assms(7-)
proof (induction m arbitrary: k s)
  case 0
  then have k: "k = kend" by simp
  have "kend \<le> 2147483647" using assms(3,6) by simp
  moreover have "0 \<le> kend" using 0 by simp
  ultimately have c1: "int_chk (kinit + terms) = Inr kend"
    unfolding assms(4)[symmetric] by (intro int_chk_num) simp_all
  show ?case by (subst lpt_loop.simps) (simp add: c1 k)
next
  case (Suc m)
  then have lt: "k < kend" by simp
  have ke: "kend \<le> 2147483647" using assms(3,6) by simp
  have d1: "1 \<le> 8 * k + j" using Suc.prems assms(3) by linarith
  have d2: "8 * k + j \<le> 94906265" using lt assms(6) by simp
  have n1: "1 \<le> d - k" using lt assms(5) by linarith
  have j0: "0 \<le> j" using assms(3) by simp
  have st: "lpt_loop (built_state len h) terms kinit j d k s
       = lpt_loop (built_state len h) terms kinit j d (k + 1) (frac1 (dadd s (spec_term j d k)))"
    using assms(1,2) Suc.prems(2) lt ke d1 d2 n1 Suc.prems(4,5) j0
    unfolding assms(4) by (rule lpt_step_built)
  have "lpt_loop (built_state len h) terms kinit j d (k + 1) (frac1 (dadd s (spec_term j d k)))
       = Inr (built_state len h, chunk_sum_spec m (k + 1) j d (frac1 (dadd s (spec_term j d k))))"
  proof (rule Suc.IH)
    show "m = nat (kend - (k + 1))" using Suc.prems(1) by linarith
    show "0 \<le> k + 1" using Suc.prems(2) by simp
    show "k + 1 \<le> kend" using lt by simp
    show "d - (k + 1) \<le> 2 ^ h" using Suc.prems(4) by simp
    show "0 \<le> frac1 (dadd s (spec_term j d k))" by (rule frac1_bounds)
  qed
  then show ?case using st by simp
qed

lemma chunk_sum_spec_bounds:
  "0 \<le> s \<Longrightarrow> s < 1 \<Longrightarrow> 0 \<le> chunk_sum_spec c k j d s \<and> chunk_sum_spec c k j d s < 1"
  by (induction c arbitrary: k s) (simp_all add: frac1_bounds)

lemma leftPortionThreaded_built_spec:
  assumes "h < len" "h \<le> 30" "1 \<le> j" "0 \<le> k0" "0 \<le> c"
    and "k0 + c \<le> d" "8 * (k0 + c - 1) + j \<le> 94906265" "d - k0 \<le> 2 ^ h"
  shows "leftPortionThreaded c (built_state len h) k0 j d
       = Inr (built_state len h, chunk_sum_spec (nat c) k0 j d 0)"
  unfolding leftPortionThreaded_def
  using assms(1-3) _ assms(6,7) _ assms(4) _ assms(8)
  by (rule lpt_loop_built_spec) (use assms in simp_all)

lemma leftPortionThreaded_fresh_spec:
  assumes "30 < len" "1 \<le> j" "0 \<le> k0" "1 \<le> c"
    and "k0 + c \<le> d" "8 * (k0 + c - 1) + j \<le> 94906265" "d - k0 \<le> 2 ^ 30"
  shows "leftPortionThreaded c (fresh_state len) k0 j d
       = Inr (built_state len (tbl_top (of_int (d - k0))), chunk_sum_spec (nat c) k0 j d 0)"
proof -
  define h where "h = tbl_top (of_int (d - k0))"
  have h30: "h \<le> 30" unfolding h_def using assms(7) by (rule tbl_top_of_int_le)
  then have hl: "h < len" using assms(1) by simp
  have dh: "d - k0 \<le> 2 ^ h" unfolding h_def by (rule of_int_le_pow_tbl_top)
  have ke: "k0 + c \<le> 2147483647" using assms(2,6) by simp
  have d1: "1 \<le> 8 * k0 + j" using assms by linarith
  have d2: "8 * k0 + j \<le> 94906265" using assms(4,6) by simp
  have st: "lpt_loop (fresh_state len) c k0 j d k0 0
       = lpt_loop (built_state len h) c k0 j d (k0 + 1) (frac1 (dadd 0 (spec_term j d k0)))"
    unfolding h_def using assms(1,3) _ ke d1 d2 _ assms(7)
    by (rule lpt_step_fresh) (use assms in simp_all)
  have "lpt_loop (built_state len h) c k0 j d (k0 + 1) (frac1 (dadd 0 (spec_term j d k0)))
       = Inr (built_state len h, chunk_sum_spec (nat (c - 1)) (k0 + 1) j d (frac1 (dadd 0 (spec_term j d k0))))"
    using hl h30 assms(2) _ assms(5,6)
  proof (rule lpt_loop_built_spec)
    show "k0 + c = k0 + c" ..
    show "nat (c - 1) = nat (k0 + c - (k0 + 1))" by simp
    show "0 \<le> k0 + 1" using assms(3) by simp
    show "k0 + 1 \<le> k0 + c" using assms(4) by simp
    show "d - (k0 + 1) \<le> 2 ^ h" using dh by simp
    show "0 \<le> frac1 (dadd 0 (spec_term j d k0))" by (rule frac1_bounds)
  qed
  moreover have "nat c = Suc (nat (c - 1))" using assms(4) by simp
  ultimately show ?thesis
    unfolding leftPortionThreaded_def st h_def[symmetric] by simp
qed

lemma lpt_loop_eval:
  "lpt_loop st (numeral a) (numeral b) j d k s =
     ebind (int_chk (numeral b + numeral a)) (\<lambda>kend.
       if k < kend then
         ebind (int_chk (8 * k)) (\<lambda>k8.
         ebind (int_chk (k8 + j)) (\<lambda>den.
         ebind (int_chk (d - k)) (\<lambda>n.
         ebind (expoMod st (i2d n) (i2d den)) (\<lambda>(st1, numerator).
         ebind (ddiv numerator (i2d den)) (\<lambda>q.
         let s1 = dadd s q;
             s2 = dsub s1 (c_floor s1) in
         ebind (int_chk (k + 1)) (\<lambda>k1.
           lpt_loop st1 (numeral a) (numeral b) j d k1 s2))))))
       else Inr (st, s))"
  "lpt_loop st 1 (numeral b) j d k s =
     ebind (int_chk (numeral b + 1)) (\<lambda>kend.
       if k < kend then
         ebind (int_chk (8 * k)) (\<lambda>k8.
         ebind (int_chk (k8 + j)) (\<lambda>den.
         ebind (int_chk (d - k)) (\<lambda>n.
         ebind (expoMod st (i2d n) (i2d den)) (\<lambda>(st1, numerator).
         ebind (ddiv numerator (i2d den)) (\<lambda>q.
         let s1 = dadd s q;
             s2 = dsub s1 (c_floor s1) in
         ebind (int_chk (k + 1)) (\<lambda>k1.
           lpt_loop st1 1 (numeral b) j d k1 s2))))))
       else Inr (st, s))"
  by (subst lpt_loop.simps, rule refl)+

section \<open>The right portion\<close>

lemma c_pow16_exact: "c_pow16 e = 16 powi e"
proof -
  have "(16::real) powi e = (2 powi 4) powi e" by simp
  also have "\<dots> = 2 powi (4 * e)" by (simp only: power_int_mult)
  finally have p: "(16::real) powi e = of_int 1 * 2 powi (4 * e)" by simp
  have "rnd (of_int 1 * 2 powi (4 * e)) = of_int 1 * 2 powi (4 * e)"
    by (rule rnd_exact) simp
  then show ?thesis unfolding c_pow16_def p .
qed

lemma c_1e17_value: "c_1e17 = 6490371073168535 / 649037107316853453566312041152512"
  by (simp add: c_1e17_def dbl_eval)

lemma is_double_pow2: "is_double (2 powi e)"
  using is_doubleI[of 1 e] by simp

lemma right_term_ddiv:
  "8 * k + j \<noteq> 0 \<Longrightarrow> ddiv (c_pow16 (d - k)) (i2d (8 * k + j)) = Inr (right_term j d k)"
  by (simp add: ddiv_def right_term_def c_pow16_exact i2d_def)

lemma right_term_nonneg: "0 \<le> 8 * k + j \<Longrightarrow> 0 \<le> right_term j d k"
  unfolding right_term_def by (intro rnd_nonneg divide_nonneg_nonneg) simp_all

lemma right_term_le:
  assumes "1 \<le> 8 * k + j" "(16::real) powi (d - k) / of_int (8 * k + j) \<le> 2 powi e"
  shows "right_term j d k \<le> 2 powi e"
  unfolding right_term_def using assms(2) is_double_pow2 by (rule rnd_le_double)

lemma right_term_mono:
  assumes "1 \<le> 8 * k + j" "k \<le> k'"
  shows "right_term j d k' \<le> right_term j d k"
proof -
  have a: "(16::real) powi (d - k') \<le> 16 powi (d - k)"
    using assms(2) by (intro power_int_increasing) simp_all
  have b: "(of_int (8 * k + j) :: real) \<le> of_int (8 * k' + j)"
    using assms(2) by simp
  have c: "(0::real) < of_int (8 * k + j)" using assms(1) by simp
  have "(16::real) powi (d - k') / of_int (8 * k' + j) \<le> 16 powi (d - k) / of_int (8 * k + j)"
    using a b c by (intro frac_le) simp_all
  then show ?thesis unfolding right_term_def by (rule rnd_mono)
qed

lemma right_term_le_one:
  assumes "1 \<le> 8 * k + j" "d \<le> k"
  shows "right_term j d k \<le> 1"
proof -
  have "(16::real) powi (d - k) \<le> 16 powi 0"
    using assms(2) by (intro power_int_increasing) simp_all
  then have a: "(16::real) powi (d - k) \<le> 1" by simp
  have b: "(1::real) \<le> of_int (8 * k + j)" using assms(1) by simp
  have "(16::real) powi (d - k) / of_int (8 * k + j) \<le> 1 / 1"
    using a b by (intro frac_le) simp_all
  then have "16 powi (d - k) / of_int (8 * k + j) \<le> (2::real) powi 0" by simp
  then have "right_term j d k \<le> 2 powi 0" using assms(1) by (intro right_term_le)
  then show ?thesis by simp
qed

lemma right_term_13:
  assumes "0 \<le> d" "1 \<le> j"
  shows "right_term j d (d + 13) < c_1e17"
proof -
  have den: "(64::real) \<le> of_int (8 * (d + 13) + j)"
  proof -
    have "(64::int) \<le> 8 * (d + 13) + j" using assms by simp
    then have "(of_int 64 :: real) \<le> of_int (8 * (d + 13) + j)" by (simp only: of_int_le_iff)
    then show ?thesis by simp
  qed
  have "(16::real) powi (d - (d + 13)) = 16 powi (- 13)" by simp
  also have "\<dots> = 2 powi (- 52)" by (simp add: power_int_minus)
  finally have num: "(16::real) powi (d - (d + 13)) = 2 powi (- 52)" .
  have "(2::real) powi (- 52) / of_int (8 * (d + 13) + j) \<le> 2 powi (- 52) / 64"
    using den by (intro divide_left_mono) simp_all
  also have "\<dots> = 2 powi (- 58)" by (simp add: power_int_minus)
  finally have "16 powi (d - (d + 13)) / of_int (8 * (d + 13) + j) \<le> (2::real) powi (- 58)"
    unfolding num .
  then have "right_term j d (d + 13) \<le> 2 powi (- 58)"
    using assms by (intro right_term_le) simp_all
  also have "(2::real) powi (- 58) < c_1e17" by (simp add: c_1e17_value power_int_minus)
  finally show ?thesis .
qed

lemma right_term_7:
  assumes "67108864 \<le> d" "1 \<le> j"
  shows "right_term j d (d + 7) < c_1e17"
proof -
  have den: "(536870912::real) \<le> of_int (8 * (d + 7) + j)"
  proof -
    have "(536870912::int) \<le> 8 * (d + 7) + j" using assms by simp
    then have "(of_int 536870912 :: real) \<le> of_int (8 * (d + 7) + j)" by (simp only: of_int_le_iff)
    then show ?thesis by simp
  qed
  have "(16::real) powi (d - (d + 7)) = 16 powi (- 7)" by simp
  also have "\<dots> = 2 powi (- 28)" by (simp add: power_int_minus)
  finally have num: "(16::real) powi (d - (d + 7)) = 2 powi (- 28)" .
  have "(2::real) powi (- 28) / of_int (8 * (d + 7) + j) \<le> 2 powi (- 28) / 536870912"
    using den by (intro divide_left_mono) simp_all
  also have "\<dots> = 2 powi (- 57)" by (simp add: power_int_minus)
  finally have "16 powi (d - (d + 7)) / of_int (8 * (d + 7) + j) \<le> (2::real) powi (- 57)"
    unfolding num .
  then have "right_term j d (d + 7) \<le> 2 powi (- 57)"
    using assms by (intro right_term_le) simp_all
  also have "(2::real) powi (- 57) < c_1e17" by (simp add: c_1e17_value power_int_minus)
  finally show ?thesis .
qed

lemma right_term_first:
  assumes "0 \<le> d" "d \<le> 268435455" "1 \<le> j" "j \<le> 6"
  shows "c_1e17 \<le> right_term j d d"
proof -
  have "8 * d + j \<le> 4294967296" using assms by simp
  then have "(of_int (8 * d + j) :: real) \<le> of_int 4294967296" by (simp only: of_int_le_iff)
  then have den: "(of_int (8 * d + j) :: real) \<le> 4294967296" by simp
  have pos: "(0::real) < of_int (8 * d + j)" using assms by simp
  have "(1::real) / 4294967296 \<le> 1 / of_int (8 * d + j)"
    using den pos by (intro divide_left_mono) simp_all
  then have "(2::real) powi (- 32) \<le> 16 powi (d - d) / of_int (8 * d + j)"
    by (simp add: power_int_minus)
  then have "2 powi (- 32) \<le> right_term j d d"
    unfolding right_term_def using is_double_pow2 by (rule rnd_ge_double)
  moreover have "c_1e17 \<le> (2::real) powi (- 32)" by (simp add: c_1e17_value power_int_minus)
  ultimately show ?thesis by simp
qed

lemma frac_step:
  assumes "0 \<le> s" "s < 1" "0 \<le> t" "t \<le> 1"
  shows "d2i (dadd s t) = Inr (c_trunc (dadd s t))"
    and "dsub (dadd s t) (i2d (c_trunc (dadd s t))) = frac1 (dadd s t)"
proof -
  have b: "0 \<le> dadd s t \<and> dadd s t \<le> 2"
    unfolding dadd_def using assms by (intro rnd_between is_double_small_ints) simp_all
  then have "\<bar>dadd s t\<bar> \<le> of_int 2" by simp
  then have "\<bar>c_trunc (dadd s t)\<bar> \<le> 2" by (rule c_trunc_abs_le)
  then show "d2i (dadd s t) = Inr (c_trunc (dadd s t))"
    unfolding d2i_def by (intro int_chk_num) simp_all
  have "is_double (dadd s t)" by (simp add: dadd_def is_double_rnd)
  then have "dsub (dadd s t) (i2d (c_trunc (dadd s t))) = dadd s t - of_int (c_trunc (dadd s t))"
    by (rule dsub_trunc)
  also have "\<dots> = frac1 (dadd s t)" using b by (simp add: c_trunc_def frac1_def)
  finally show "dsub (dadd s t) (i2d (c_trunc (dadd s t))) = frac1 (dadd s t)" .
qed

lemma right_step:
  assumes "0 \<le> d" "d \<le> 268435448" "d \<le> k" "k \<le> d + 100"
    and "1 \<le> j" "8 * k + j \<le> 2147483647" "0 \<le> s" "s < 1"
  shows "right_portion j d k s =
     (if right_term j d k < c_1e17 then Inr (s, k)
      else right_portion j d (k + 1) (frac1 (dadd s (right_term j d k))))"
proof -
  have c1: "int_chk (d + 100) = Inr (d + 100)" using assms by (intro int_chk_num) simp_all
  have c2: "int_chk (d - k) = Inr (d - k)" using assms by (intro int_chk_num) simp_all
  have c3: "int_chk (8 * k) = Inr (8 * k)" using assms by (intro int_chk_num) simp_all
  have c4: "int_chk (8 * k + j) = Inr (8 * k + j)" using assms by (intro int_chk_num) simp_all
  have c5: "int_chk (k + 1) = Inr (k + 1)" using assms by (intro int_chk_num) simp_all
  have den: "1 \<le> 8 * k + j" using assms by simp
  then have q: "ddiv (c_pow16 (d - k)) (i2d (8 * k + j)) = Inr (right_term j d k)"
    by (intro right_term_ddiv) simp
  have t0: "0 \<le> right_term j d k" using den by (intro right_term_nonneg) simp
  have t1: "right_term j d k \<le> 1" using den assms(3) by (rule right_term_le_one)
  note fs = frac_step[OF assms(7,8) t0 t1]
  show ?thesis
    by (subst right_portion.simps) (simp add: c1 c2 c3 c4 c5 q fs assms(4) Let_def)
qed


lemma right_loop:
  assumes "0 \<le> d" "d \<le> 268435448" "1 \<le> j" "K \<le> d + 100" "8 * K + j \<le> 2147483647"
    and "right_term j d K < c_1e17"
    and "m = nat (K - k)" "d \<le> k" "k \<le> K" "0 \<le> s" "s < 1"
  shows "\<exists>kb. right_portion j d k s = Inr (tail_sum_spec (nat (kb - k)) j d k s, kb)
          \<and> k \<le> kb \<and> kb \<le> K \<and> right_term j d kb < c_1e17
          \<and> (\<forall>i. k \<le> i \<and> i < kb \<longrightarrow> c_1e17 \<le> right_term j d i)"
  using assms(7-)
proof (induction m arbitrary: k s)
  case 0
  then have k: "k = K" by simp
  have "right_portion j d K s = Inr (s, K)"
    using right_step[OF assms(1,2) _ assms(4,3,5), of s] 0 k assms(6) by simp
  then show ?case using assms(6) k by (intro exI[of _ K]) simp
next
  case (Suc m)
  then have lt: "k < K" by simp
  have k100: "k \<le> d + 100" using lt assms(4) by simp
  have k8: "8 * k + j \<le> 2147483647" using lt assms(5) by simp
  note st = right_step[OF assms(1,2) Suc.prems(2) k100 assms(3) k8 Suc.prems(4,5)]
  show ?case
  proof (cases "right_term j d k < c_1e17")
    case True
    then have "right_portion j d k s = Inr (s, k)" using st by simp
    then show ?thesis using True lt by (intro exI[of _ k]) simp
  next
    case False
    define s1 where "s1 = frac1 (dadd s (right_term j d k))"
    have eq: "right_portion j d k s = right_portion j d (k + 1) s1"
      using st False by (simp add: s1_def)
    have "\<exists>kb. right_portion j d (k + 1) s1 = Inr (tail_sum_spec (nat (kb - (k + 1))) j d (k + 1) s1, kb)
          \<and> k + 1 \<le> kb \<and> kb \<le> K \<and> right_term j d kb < c_1e17
          \<and> (\<forall>i. k + 1 \<le> i \<and> i < kb \<longrightarrow> c_1e17 \<le> right_term j d i)"
    proof (rule Suc.IH)
      show "m = nat (K - (k + 1))" using Suc.prems(1) by linarith
      show "d \<le> k + 1" using Suc.prems(2) by simp
      show "k + 1 \<le> K" using lt by simp
      show "0 \<le> s1" "s1 < 1" unfolding s1_def by (rule frac1_bounds)+
    qed
    then obtain kb where kb:
      "right_portion j d (k + 1) s1 = Inr (tail_sum_spec (nat (kb - (k + 1))) j d (k + 1) s1, kb)"
      "k + 1 \<le> kb" "kb \<le> K" "right_term j d kb < c_1e17"
      "\<forall>i. k + 1 \<le> i \<and> i < kb \<longrightarrow> c_1e17 \<le> right_term j d i"
      by blast
    have n: "nat (kb - k) = Suc (nat (kb - (k + 1)))" using kb(2) by linarith
    have ts: "tail_sum_spec (nat (kb - k)) j d k s = tail_sum_spec (nat (kb - (k + 1))) j d (k + 1) s1"
      unfolding n by (simp add: s1_def)
    have all: "\<forall>i. k \<le> i \<and> i < kb \<longrightarrow> c_1e17 \<le> right_term j d i"
    proof (intro allI impI)
      fix i assume i: "k \<le> i \<and> i < kb"
      show "c_1e17 \<le> right_term j d i"
      proof (cases "i = k")
        case True then show ?thesis using False by simp
      next
        case False
        then have "k + 1 \<le> i \<and> i < kb" using i by simp
        then show ?thesis using kb(5) by blast
      qed
    qed
    show ?thesis
      using eq kb(1,2,3,4) ts all by (intro exI[of _ kb]) simp
  qed
qed

lemma right_portion_eval:
  "right_portion j (numeral w) k s =
     ebind (int_chk (numeral w + 100)) (\<lambda>lim.
       if k \<le> lim then
         ebind (int_chk (numeral w - k)) (\<lambda>e.
         ebind (int_chk (8 * k)) (\<lambda>k8.
         ebind (int_chk (k8 + j)) (\<lambda>den.
         ebind (ddiv (c_pow16 e) (i2d den)) (\<lambda>term.
           if term < c_1e17 then Inr (s, k)
           else
             let s1 = dadd s term in
             ebind (d2i s1) (\<lambda>i.
             ebind (int_chk (k + 1)) (\<lambda>k1.
               right_portion j (numeral w) k1 (dsub s1 (i2d i))))))))
       else Inr (s, k))"
  "right_portion j 0 k s =
     ebind (int_chk (0 + 100)) (\<lambda>lim.
       if k \<le> lim then
         ebind (int_chk (0 - k)) (\<lambda>e.
         ebind (int_chk (8 * k)) (\<lambda>k8.
         ebind (int_chk (k8 + j)) (\<lambda>den.
         ebind (ddiv (c_pow16 e) (i2d den)) (\<lambda>term.
           if term < c_1e17 then Inr (s, k)
           else
             let s1 = dadd s term in
             ebind (d2i s1) (\<lambda>i.
             ebind (int_chk (k + 1)) (\<lambda>k1.
               right_portion j 0 k1 (dsub s1 (i2d i))))))))
       else Inr (s, k))"
  by (subst right_portion.simps, rule refl)+

lemma c_pow16_eval:
  "c_pow16 0 = 1"
  "c_pow16 (- 1) = 1 / 16"
  "c_pow16 (- numeral w) = 1 / 16 ^ numeral w"
  "c_pow16 (numeral w) = 16 ^ numeral w"
  by (simp_all add: c_pow16_exact power_int_minus_divide)

lemmas right_eval = right_portion_eval c_pow16_eval c_1e17_value
  rnd_eval expo_eval rhe_eval c_trunc_eval int_chk_eval ddiv_eval bitlen_numeral_simps
  dadd_def dsub_def dmul_def c_floor_def i2d_def d2i_def Let_def

section \<open>The loops of bbpf16jsd\<close>

lemma run_threads_k:
  "run_threads c st k j d = Inr (st', k', rs) \<Longrightarrow> k' = k + 100000 * int c \<and> length rs = c"
proof (induction c arbitrary: st k st' k' rs)
  case 0
  then show ?case by simp
next
  case (Suc c)
  from Suc.prems obtain st1 res k1 st2 k2 ress where
    a: "int_chk (k + 100000) = Inr k1"
    and b: "run_threads c st1 k1 j d = Inr (st2, k2, ress)"
    and c: "st' = st2" "k' = k2" "rs = res # ress"
    by (auto simp: ebind_eq_Inr_iff)
  have "k1 = k + 100000" using a by (auto simp: int_chk_def split: if_splits)
  then show ?case using Suc.IH[OF b] c by simp
qed

lemma seq_term_k:
  "seq_term st j d k s = Inr (st', k', s') \<Longrightarrow> k' = k + 1"
  by (auto simp: seq_term_def ebind_eq_Inr_iff Let_def int_chk_def split: if_splits)

lemma left_body_k:
  assumes "left_body T st j d k s = Inr (st', k', s')"
  shows "k' = (if (k + 100000 * int T) mod 2 ^ 32 < d then k + 100000 * int T else k + 1)"
proof (cases "(k + 100000 * int T) mod 2 ^ 32 < d")
  case True
  with assms obtain st1 k1 ress where "run_threads T st k j d = Inr (st1, k1, ress)" "k' = k1"
    by (auto simp: left_body_def ebind_eq_Inr_iff split: if_splits)
  then show ?thesis using True run_threads_k by simp
next
  case False
  with assms have "seq_term st j d k s = Inr (st', k', s')" by (simp add: left_body_def)
  then show ?thesis using False seq_term_k by simp
qed

lemma left_portion_terminates:
  assumes "1 \<le> T"
  shows "\<exists>r. left_portion T j d st k s = Some r"
proof (induction "nat (d - k)" arbitrary: st k s rule: less_induct)
  case less
  show ?case
  proof (cases "k < d")
    case False
    then show ?thesis by (subst left_portion.simps) simp
  next
    case True
    show ?thesis
    proof (cases "left_body T st j d k s")
      case (Inl e)
      then show ?thesis using True by (subst left_portion.simps) simp
    next
      case (Inr x)
      obtain st1 k1 s1 where x: "x = (st1, k1, s1)" by (cases x) auto
      have "k < k1" using left_body_k[OF Inr[unfolded x]] assms by (auto split: if_splits)
      then have "nat (d - k1) < nat (d - k)" using True by simp
      then have "\<exists>r. left_portion T j d st1 k1 s1 = Some r" by (rule less)
      then show ?thesis using True Inr x by (subst left_portion.simps) simp
    qed
  qed
qed

lemma left_portion_diverges:
  assumes "left_portion T j d st k s = Some r"
  shows "\<not> (T = 0 \<and> 0 \<le> k \<and> k < d \<and> d \<le> 2 ^ 32)"
proof (rule left_portion.raw_induct
    [where P = "\<lambda>T j d st k s r. \<not> (T = 0 \<and> 0 \<le> k \<and> k < d \<and> d \<le> 2 ^ 32)", OF _ assms])
  fix lp :: "nat \<Rightarrow> int \<Rightarrow> int \<Rightarrow> expo_state \<Rightarrow> int \<Rightarrow> real \<Rightarrow> (error + expo_state \<times> real) option"
  fix T :: nat and j d k :: int and st :: expo_state and s :: real
    and r :: "error + expo_state \<times> real"
  assume IH: "\<And>T j d st k s r. lp T j d st k s = Some r
                \<Longrightarrow> \<not> (T = 0 \<and> 0 \<le> k \<and> k < d \<and> d \<le> 2 ^ 32)"
  assume eq: "(if k < d
      then case left_body T st j d k s of Inl e \<Rightarrow> Some (Inl e)
           | Inr (st1, k1, s1) \<Rightarrow> lp T j d st1 k1 s1
      else Some (Inr (st, s))) = Some r"
  show "\<not> (T = 0 \<and> 0 \<le> k \<and> k < d \<and> d \<le> 2 ^ 32)"
  proof
    assume a: "T = 0 \<and> 0 \<le> k \<and> k < d \<and> d \<le> 2 ^ 32"
    then have "k mod 2 ^ 32 = k" by simp
    then have "left_body T st j d k s = Inr (st, k, s)"
      using a by (simp add: left_body_def data_race_def)
    then have "lp T j d st k s = Some r" using eq a by simp
    then show False using IH a by blast
  qed
qed


lemma right_portion_k:
  "right_portion j d k s = Inr (s', k') \<Longrightarrow> k \<le> k' \<and> (k \<le> d + 101 \<longrightarrow> k' \<le> d + 101)"
proof (induction "nat (d + 101 - k)" arbitrary: k s rule: less_induct)
  case less
  from less.prems obtain lim where lim: "int_chk (d + 100) = Inr lim"
    by (subst (asm) right_portion.simps) (auto simp: ebind_eq_Inr_iff)
  then have l: "lim = d + 100" by (auto simp: int_chk_def split: if_splits)
  show ?case
  proof (cases "k \<le> d + 100")
    case False
    then have "right_portion j d k s = Inr (s, k)"
      using lim l by (subst right_portion.simps) simp
    then show ?thesis using less.prems by simp
  next
    case True
    from less.prems True lim l
    consider (brk) "k' = k" | (go) k1 s1 where "int_chk (k + 1) = Inr k1" "right_portion j d k1 s1 = Inr (s', k')"
      by (subst (asm) right_portion.simps)
         (auto simp: ebind_eq_Inr_iff Let_def split: if_splits)
    then show ?thesis
    proof cases
      case brk
      then show ?thesis using True by simp
    next
      case go
      have k1: "k1 = k + 1" using go(1) by (auto simp: int_chk_def split: if_splits)
      have "nat (d + 101 - k1) < nat (d + 101 - k)" using True k1 by simp
      then have "k1 \<le> k' \<and> (k1 \<le> d + 101 \<longrightarrow> k' \<le> d + 101)"
        using go(2) by (rule less.hyps)
      then show ?thesis using k1 True by simp
    qed
  qed
qed

section \<open>The series sum in the exact range\<close>








lemma init_built [simp]: "init (built_state len h)"
  by (simp add: built_state_def)

lemma init_fresh [simp]: "\<not> init (fresh_state len)"
  by (simp add: fresh_state_def)







section \<open>Reads of the table during a run\<close>

lemma stays_in_bounds_Inl [simp]: "stays_in_bounds B (Inl e) \<longleftrightarrow> e \<noteq> OutOfBounds"
  by (simp add: stays_in_bounds_def)

lemma stays_in_bounds_Inr [simp]: "stays_in_bounds B (Inr (st, x)) \<longleftrightarrow> st = B"
  by (simp add: stays_in_bounds_def)


























lemma lpt_loop_past_d:
  assumes "h < len" "h \<le> 30" "1 \<le> j" "8 * d + j \<le> 94906265"
    and "d < kinit + terms" "kinit + terms \<le> 2147483647"
  shows "0 \<le> k \<Longrightarrow> k \<le> d \<Longrightarrow> d - k \<le> 2 ^ h \<Longrightarrow> 0 \<le> s
    \<Longrightarrow> lpt_loop (built_state len h) terms kinit j d k s = Inl OutOfBounds"
proof (induction "nat (d - k)" arbitrary: k s rule: less_induct)
  case less
  show ?case
  proof (cases "k < d")
    case True
    have st: "lpt_loop (built_state len h) terms kinit j d k s
       = lpt_loop (built_state len h) terms kinit j d (k + 1) (frac1 (dadd s (spec_term j d k)))"
      using assms(1,2) less.prems(1) _ assms(6)
    proof (rule lpt_step_built)
      show "k < kinit + terms" using True assms(5) by simp
      show "1 \<le> 8 * k + j" using less.prems(1) assms(3) by simp
      show "8 * k + j \<le> 94906265" using True assms(4) by simp
      show "1 \<le> d - k" using True by simp
      show "d - k \<le> 2 ^ h" by (rule less.prems)
      show "0 \<le> s" by (rule less.prems)
      show "0 \<le> j" using assms(3) by simp
    qed
    have "lpt_loop (built_state len h) terms kinit j d (k + 1) (frac1 (dadd s (spec_term j d k)))
       = Inl OutOfBounds"
    proof (rule less.hyps)
      show "nat (d - (k + 1)) < nat (d - k)" using True by simp
      show "0 \<le> k + 1" using less.prems(1) by simp
      show "k + 1 \<le> d" using True by simp
      show "d - (k + 1) \<le> 2 ^ h" using less.prems(3) by simp
      show "0 \<le> frac1 (dadd s (spec_term j d k))" by (rule frac1_bounds)
    qed
    then show ?thesis using st by simp
  next
    case False
    then have k: "k = d" using less.prems(2) by simp
    have d0: "0 \<le> d" using less.prems(1) k by simp
    have c1: "int_chk (kinit + terms) = Inr (kinit + terms)"
      using assms(5,6) d0 by (intro int_chk_num) simp_all
    have c2: "int_chk (8 * d) = Inr (8 * d)" using assms(3,4) d0 by (intro int_chk_num) linarith+
    have c3: "int_chk (8 * d + j) = Inr (8 * d + j)" using assms(3,4) d0 by (intro int_chk_num) linarith+
    have c4: "int_chk 0 = Inr 0" by (simp add: int_chk_def)
    have e: "expoMod (built_state len h) (i2d 0) kk = Inl OutOfBounds" for kk
      by (simp add: expoMod_built_oob_iff[OF assms(1)] i2d_def)
    show ?thesis
      unfolding k by (subst lpt_loop.simps) (simp add: c1 c2 c3 c4 e assms(5))
  qed
qed

section \<open>Runs at particular inputs\<close>

lemma left_portion_zero: "left_portion T j 0 st 0 s = Some (Inr (st, s))"
  by (subst left_portion.simps) simp

lemma right_portion_zero:
  "right_portion 1 0 0 0 = Inr (4141568678910459 / 576460752303423488, 13)"
  "right_portion 4 0 0 0 = Inr (287569261105477 / 1125899906842624, 13)"
  "right_portion 5 0 0 0 = Inr (7385995537451167 / 36028797018963968, 13)"
  "right_portion 6 0 0 0 = Inr (6172347964926743 / 36028797018963968, 13)"
  by (simp_all add: right_eval cong: ebind_weak_cong)

lemma combine_zero:
  "combine (4141568678910459 / 576460752303423488) (287569261105477 / 1125899906842624)
     (7385995537451167 / 36028797018963968) (6172347964926743 / 36028797018963968)
   = Inr (637676621945393 / 4503599627370496)"
  by (simp add: combine_def dbl_eval cong: ebind_weak_cong)

lemma toHex_loop_numeral:
  "toHex_loop (numeral w) x =
     (let x1 = dmul 16 (dsub x (c_floor x)) in
      ebind (d2i x1) (\<lambda>i.
      ebind (char_at hexNumbers i) (\<lambda>ch.
      ebind (toHex_loop (pred_numeral w) x1) (\<lambda>out. Inr (ch # out)))))"
  by (simp add: numeral_eq_Suc)

lemma toHex_zero: "toHex (637676621945393 / 4503599627370496) = Inr ''243F6A888''"
  by (simp add: toHex_def toHex_loop_numeral hexNumbers_def char_at_def dbl_eval cong: ebind_weak_cong)

lemma right_portion_int_overflow:
  assumes "268435456 \<le> d"
  shows "right_portion j d d s = Inl IntOverflow"
proof (cases "d + 100 \<le> 2147483647")
  case False
  then have "int_chk (d + 100) = Inl IntOverflow" by (simp add: int_chk_def)
  then show ?thesis by (subst right_portion.simps) simp
next
  case True
  then have a: "int_chk (d + 100) = Inr (d + 100)" using assms by (intro int_chk_num) simp_all
  have b: "int_chk 0 = Inr 0" by (simp add: int_chk_def)
  have c: "int_chk (8 * d) = Inl IntOverflow" using assms by (simp add: int_chk_def)
  show ?thesis by (subst right_portion.simps) (simp add: a b c)
qed

lemma bbpf16jsd_no_value:
  assumes "268435456 \<le> d"
  shows "\<not> returns_value (bbpf16jsd T st j d)"
proof (cases "left_portion T j d st 0 0")
  case None
  then show ?thesis by (simp add: bbpf16jsd_def returns_value_def)
next
  case (Some r)
  show ?thesis
  proof (cases r)
    case (Inl e)
    then show ?thesis using Some by (simp add: bbpf16jsd_def returns_value_def)
  next
    case (Inr x)
    obtain st1 s1 where "x = (st1, s1)" by (cases x) auto
    then show ?thesis
      using Some Inr right_portion_int_overflow[OF assms]
      by (simp add: bbpf16jsd_def returns_value_def)
  qed
qed

lemma leftPortionThreaded_past_d:
  assumes "h < len" "h \<le> 30" "1 \<le> j" "8 * d + j \<le> 94906265"
    and "0 \<le> k0" "k0 \<le> d" "d < k0 + c" "k0 + c \<le> 2147483647" "d - k0 \<le> 2 ^ h"
  shows "leftPortionThreaded c (built_state len h) k0 j d = Inl OutOfBounds"
  unfolding leftPortionThreaded_def
  using assms by (intro lpt_loop_past_d) simp_all


lemma wrapped_batch:
  assumes "1 \<le> j" "j \<le> 6"
  shows "bbpf16jsd 42950 (built_state 64 16) j 40000 = Some (Inl OutOfBounds)"
proof -
  have lp: "leftPortionThreaded 100000 (built_state 64 16) 0 j 40000 = Inl OutOfBounds"
    by (rule leftPortionThreaded_past_d) (use assms in simp_all)
  have T: "(42950::nat) = Suc 42949" by simp
  have rt: "run_threads 42950 (built_state 64 16) 0 j 40000 = Inl OutOfBounds"
    unfolding T run_threads.simps lp by simp
  have lb: "left_body 42950 (built_state 64 16) j 40000 0 0 = Inl OutOfBounds"
    by (simp add: left_body_def data_race_def rt)
  show ?thesis
    by (subst bbpf16jsd_def, subst left_portion.simps) (simp add: lb)
qed

section \<open>Termination beyond the exact range\<close>

lemma rnd_rel_err: "\<bar>rnd x - x\<bar> \<le> \<bar>x\<bar> / 2 ^ 53"
proof -
  have pos: "\<bar>rnd y - y\<bar> \<le> \<bar>y\<bar> / 2 ^ 53" if "0 < y" for y :: real
  proof -
    have "\<bar>rnd y - y\<bar> \<le> 2 powi (expo y - 53)" using that by (rule rnd_err)
    also have "\<dots> = 2 powi (expo y) / 2 ^ 53"
      using pow2_split[of "expo y - 53" 53] by (simp add: field_simps)
    also have "\<dots> \<le> y / 2 ^ 53"
      using expo_bounds(1)[OF that] by (intro divide_right_mono) simp_all
    finally show ?thesis using that by simp
  qed
  consider "x = 0" | "0 < x" | "x < 0" by linarith
  then show ?thesis
  proof cases
    case 1
    then show ?thesis by simp
  next
    case 2
    then show ?thesis by (rule pos)
  next
    case 3
    then have "\<bar>rnd (- x) - (- x)\<bar> \<le> \<bar>- x\<bar> / 2 ^ 53" by (intro pos) simp
    then show ?thesis by (simp add: rnd_minus abs_minus_commute)
  qed
qed

lemma rnd_abs_le:
  assumes "\<bar>x\<bar> \<le> y" "is_double y"
  shows "\<bar>rnd x\<bar> \<le> y"
proof -
  have "rnd x \<le> y" using assms by (intro rnd_le_double) simp_all
  moreover have "- y \<le> rnd x"
    using assms by (intro rnd_ge_double) (simp_all add: is_double_minus)
  ultimately show ?thesis by simp
qed

lemma trunc_diff_lt_1: "\<bar>x - of_int (c_trunc x)\<bar> < 1"
  using sub_trunc_bounds[of x] by (cases "0 \<le> x") simp_all

lemma reduce_robust:
  fixes k :: int
  assumes "1 \<le> k" "k \<le> 2147483648" "\<bar>x\<bar> \<le> of_int k * 2147483647" "\<bar>x\<bar> \<le> 2 ^ 62"
  shows "\<exists>r. reduce x (of_int k) = Inr r \<and> \<bar>r\<bar> \<le> of_int k + 2048"
proof -
  define kr :: real where "kr = of_int k"
  have k1: "1 \<le> kr" using assms(1) by (simp add: kr_def)
  have k31: "kr \<le> 2147483648"
  proof -
    have "(of_int k :: real) \<le> of_int 2147483648" using assms(2) by (simp only: of_int_le_iff)
    then show ?thesis by (simp add: kr_def)
  qed
  define q where "q = rnd (x / kr)"
  define qi where "qi = c_trunc q"
  define p where "p = rnd (of_int qi * kr)"
  have dv: "ddiv x kr = Inr q" using k1 by (simp add: ddiv_def q_def)
  have xk: "\<bar>x / kr\<bar> \<le> 2147483647"
  proof -
    have "\<bar>x\<bar> / kr \<le> (kr * 2147483647) / kr"
      using assms(3) k1 by (intro divide_right_mono) (simp_all add: kr_def)
    then show ?thesis using k1 by simp
  qed
  have "\<bar>q\<bar> \<le> of_int 2147483647"
    unfolding q_def using xk by (intro rnd_abs_le is_double_of_int) simp_all
  then have qib: "\<bar>qi\<bar> \<le> 2147483647" unfolding qi_def by (rule c_trunc_abs_le)
  then have di: "d2i q = Inr qi"
    unfolding d2i_def qi_def[symmetric] by (intro int_chk_num) simp_all
  have red: "reduce x kr = Inr (rnd (x - p))"
    by (simp add: reduce_def dv di dsub_def dmul_def i2d_def p_def)
  have e1: "\<bar>q * kr - x\<bar> \<le> 512"
  proof -
    have "\<bar>q - x / kr\<bar> \<le> \<bar>x / kr\<bar> / 2 ^ 53" unfolding q_def by (rule rnd_rel_err)
    then have "\<bar>q - x / kr\<bar> * kr \<le> (\<bar>x / kr\<bar> / 2 ^ 53) * kr"
      using k1 by (intro mult_right_mono) simp_all
    moreover have "\<bar>q - x / kr\<bar> * kr = \<bar>q * kr - x\<bar>"
    proof -
      have "\<bar>q - x / kr\<bar> * kr = \<bar>(q - x / kr) * kr\<bar>" using k1 by (simp add: abs_mult)
      also have "(q - x / kr) * kr = q * kr - x" using k1 by (simp add: field_simps)
      finally show ?thesis .
    qed
    moreover have "(\<bar>x / kr\<bar> / 2 ^ 53) * kr = \<bar>x\<bar> / 2 ^ 53" using k1 by simp
    ultimately have "\<bar>q * kr - x\<bar> \<le> \<bar>x\<bar> / 2 ^ 53" by simp
    also have "\<dots> \<le> 2 ^ 62 / 2 ^ 53" using assms(4) by (intro divide_right_mono) simp_all
    finally show ?thesis by simp
  qed
  have e2: "\<bar>q * kr - of_int qi * kr\<bar> \<le> kr"
  proof -
    have "\<bar>q - of_int qi\<bar> < 1" unfolding qi_def by (rule trunc_diff_lt_1)
    then have "\<bar>q - of_int qi\<bar> * kr \<le> 1 * kr" using k1 by (intro mult_right_mono) simp_all
    moreover have "\<bar>q - of_int qi\<bar> * kr = \<bar>q * kr - of_int qi * kr\<bar>"
    proof -
      have "\<bar>q - of_int qi\<bar> * kr = \<bar>(q - of_int qi) * kr\<bar>" using k1 by (simp add: abs_mult)
      then show ?thesis by (simp add: algebra_simps)
    qed
    ultimately show ?thesis by simp
  qed
  have e12: "\<bar>x - of_int qi * kr\<bar> \<le> kr + 512" using e1 e2 by linarith
  have qk: "\<bar>of_int qi * kr\<bar> \<le> 2 ^ 62 + 2147483648 + 512"
    using e12 assms(4) k31 by linarith
  have e3: "\<bar>p - of_int qi * kr\<bar> \<le> 513"
  proof -
    have "\<bar>p - of_int qi * kr\<bar> \<le> \<bar>of_int qi * kr\<bar> / 2 ^ 53"
      unfolding p_def by (rule rnd_rel_err)
    also have "\<dots> \<le> (2 ^ 62 + 2147483648 + 512) / 2 ^ 53"
      using qk by (intro divide_right_mono) simp_all
    also have "\<dots> \<le> 513" by simp
    finally show ?thesis .
  qed
  have "\<bar>x - p\<bar> \<le> kr + 2048" using e12 e3 by linarith
  moreover have "is_double (kr + 2048)"
  proof -
    have "\<bar>k + 2048\<bar> \<le> 2 ^ 53" using assms(1,2) by simp
    then have "is_double (of_int (k + 2048))" by (rule is_double_of_int)
    then show ?thesis by (simp add: kr_def)
  qed
  ultimately have "\<bar>rnd (x - p)\<bar> \<le> kr + 2048" by (rule rnd_abs_le)
  then show ?thesis using red by (simp add: kr_def)
qed


lemma is_double_2_62: "is_double (2 ^ 62)"
  using is_double_pow2[of 62] by simp

lemma square_bound:
  fixes kr a :: real
  assumes "4194304 \<le> kr" "kr \<le> 2147479549" "\<bar>a\<bar> \<le> kr + 2048"
  shows "a * a \<le> kr * (kr + 4097)" "a * a \<le> 2 ^ 62"
proof -
  have "a * a = \<bar>a\<bar> * \<bar>a\<bar>" by simp
  also have "\<dots> \<le> (kr + 2048) * (kr + 2048)"
    using assms(3) by (intro mult_mono) simp_all
  finally have sq: "a * a \<le> (kr + 2048) * (kr + 2048)" .
  have "(kr + 2048) * (kr + 2048) = kr * kr + 4096 * kr + 4194304" by (simp add: algebra_simps)
  also have "\<dots> \<le> kr * kr + 4097 * kr" using assms(1) by simp
  also have "\<dots> = kr * (kr + 4097)" by (simp add: algebra_simps)
  finally show "a * a \<le> kr * (kr + 4097)" using sq by simp
  have "(kr + 2048) * (kr + 2048) \<le> 2147483648 * 2147483648"
    using assms(1,2) by (intro mult_mono) simp_all
  then show "a * a \<le> 2 ^ 62" using sq by simp
qed

lemma square_reduce_robust:
  fixes k :: int
  assumes "4194304 \<le> k" "k \<le> 2147479549" "\<bar>r\<bar> \<le> of_int k + 2048"
  shows "\<exists>r'. reduce (dmul r r) (of_int k) = Inr r' \<and> \<bar>r'\<bar> \<le> of_int k + 2048"
proof -
  define kr :: real where "kr = of_int k"
  have klo: "4194304 \<le> kr"
  proof -
    have "(of_int 4194304 :: real) \<le> of_int k" using assms(1) by (simp only: of_int_le_iff)
    then show ?thesis by (simp add: kr_def)
  qed
  have khi: "kr \<le> 2147479549"
  proof -
    have "(of_int k :: real) \<le> of_int 2147479549" using assms(2) by (simp only: of_int_le_iff)
    then show ?thesis by (simp add: kr_def)
  qed
  have rb: "\<bar>r\<bar> \<le> kr + 2048" using assms(3) by (simp add: kr_def)
  note sq = square_bound[OF klo khi rb]
  have nn: "0 \<le> r * r" by simp
  have x62: "\<bar>dmul r r\<bar> \<le> 2 ^ 62"
    unfolding dmul_def using sq(2) nn by (intro rnd_abs_le is_double_2_62) simp
  have "\<bar>rnd (r * r) - r * r\<bar> \<le> \<bar>r * r\<bar> / 2 ^ 53" by (rule rnd_rel_err)
  then have "\<bar>rnd (r * r)\<bar> \<le> r * r + (r * r) / 2 ^ 53" using nn by (simp add: abs_if split: if_splits)
  also have "\<dots> \<le> kr * (kr + 4097) + (kr * (kr + 4097)) / 2 ^ 53"
    using sq(1) by (intro add_mono divide_right_mono) simp_all
  also have "(kr * (kr + 4097)) / 2 ^ 53 = kr * ((kr + 4097) / 2 ^ 53)" by simp
  also have "kr * ((kr + 4097) / 2 ^ 53) \<le> kr * 1"
    using klo khi by (intro mult_left_mono) simp_all
  finally have "\<bar>rnd (r * r)\<bar> \<le> kr * (kr + 4097) + kr * 1" by simp
  also have "\<dots> = kr * (kr + 4098)" by (simp add: algebra_simps)
  also have "\<dots> \<le> kr * 2147483647" using klo khi by (intro mult_left_mono) simp_all
  finally have xk: "\<bar>dmul r r\<bar> \<le> of_int k * 2147483647" by (simp add: dmul_def kr_def)
  show ?thesis using _ _ xk x62 by (rule reduce_robust) (use assms in simp_all)
qed

lemma mul16_reduce_robust:
  fixes k :: int
  assumes "4194304 \<le> k" "k \<le> 2147479549" "\<bar>r\<bar> \<le> of_int k + 2048"
  shows "\<exists>r'. reduce (dmul r 16) (of_int k) = Inr r' \<and> \<bar>r'\<bar> \<le> of_int k + 2048"
proof -
  define kr :: real where "kr = of_int k"
  have klo: "4194304 \<le> kr"
  proof -
    have "(of_int 4194304 :: real) \<le> of_int k" using assms(1) by (simp only: of_int_le_iff)
    then show ?thesis by (simp add: kr_def)
  qed
  have khi: "kr \<le> 2147479549"
  proof -
    have "(of_int k :: real) \<le> of_int 2147479549" using assms(2) by (simp only: of_int_le_iff)
    then show ?thesis by (simp add: kr_def)
  qed
  have rb: "\<bar>r * 16\<bar> \<le> of_int (16 * (k + 2048))" using assms(3) by simp
  have "\<bar>16 * (k + 2048)\<bar> \<le> 2 ^ 53" using assms(1,2) by simp
  then have "is_double (of_int (16 * (k + 2048)))" by (rule is_double_of_int)
  with rb have "\<bar>dmul r 16\<bar> \<le> of_int (16 * (k + 2048))"
    unfolding dmul_def by (rule rnd_abs_le)
  then have x: "\<bar>dmul r 16\<bar> \<le> 16 * kr + 32768" by (simp add: kr_def)
  have "16 * kr + 32768 \<le> kr * 2147483647" using klo by simp
  then have xk: "\<bar>dmul r 16\<bar> \<le> of_int k * 2147483647" using x by (simp add: kr_def)
  have "16 * kr + 32768 \<le> 2 ^ 62" using khi by simp
  then have x62: "\<bar>dmul r 16\<bar> \<le> 2 ^ 62" using x by simp
  show ?thesis using _ _ xk x62 by (rule reduce_robust) (use assms in simp_all)
qed

lemma pow_loop_robust:
  fixes k :: int
  assumes "4194304 \<le> k" "k \<le> 2147479549"
  shows "\<bar>r\<bar> \<le> of_int k + 2048
    \<Longrightarrow> \<exists>r'. pow_loop c (of_int k) n t r = Inr r' \<and> \<bar>r'\<bar> \<le> of_int k + 2048"
proof (induction c arbitrary: n t r)
  case 0
  then show ?case by simp
next
  case (Suc c)
  have "\<exists>r1 n1. (if i2d t \<le> n
            then ebind (reduce (dmul r 16) (of_int k)) (\<lambda>r1. Inr (r1, dsub n (i2d t)))
            else Inr (r, n)) = Inr (r1, n1) \<and> \<bar>r1\<bar> \<le> of_int k + 2048"
  proof (cases "i2d t \<le> n")
    case True
    obtain r1 where "reduce (dmul r 16) (of_int k) = Inr r1" "\<bar>r1\<bar> \<le> of_int k + 2048"
      using mul16_reduce_robust[OF assms Suc.prems] by blast
    then show ?thesis using True by simp
  next
    case False
    then show ?thesis using Suc.prems by simp
  qed
  then obtain r1 n1 where a: "(if i2d t \<le> n
            then ebind (reduce (dmul r 16) (of_int k)) (\<lambda>r1. Inr (r1, dsub n (i2d t)))
            else Inr (r, n)) = Inr (r1, n1)" and r1: "\<bar>r1\<bar> \<le> of_int k + 2048" by blast
  have "\<exists>r2. (if 1 \<le> c_div2 t then reduce (dmul r1 r1) (of_int k) else Inr r1) = Inr r2
          \<and> \<bar>r2\<bar> \<le> of_int k + 2048"
  proof (cases "1 \<le> c_div2 t")
    case True
    then show ?thesis using square_reduce_robust[OF assms r1] by simp
  next
    case False
    then show ?thesis using r1 by simp
  qed
  then obtain r2 where b: "(if 1 \<le> c_div2 t then reduce (dmul r1 r1) (of_int k) else Inr r1) = Inr r2"
    and r2: "\<bar>r2\<bar> \<le> of_int k + 2048" by blast
  have "pow_loop (Suc c) (of_int k) n t r = pow_loop c (of_int k) n1 (c_div2 t) r2"
    unfolding pow_loop.simps a by (simp add: Let_def b)
  then show ?case using Suc.IH[OF r2] by simp
qed

lemma expoMod_total_built:
  fixes n k :: int
  assumes "h < len" "h \<le> 30" "1 \<le> n" "n \<le> 2 ^ h" "1 \<le> k" "k \<le> 2147479549"
  shows "\<exists>r. expoMod (built_state len h) (of_int n) (of_int k) = Inr (built_state len h, r)
           \<and> \<bar>r\<bar> \<le> of_int k + 2048"
proof (cases "k \<le> 94906265")
  case True
  have "expoMod (built_state len h) (of_int n) (of_int k)
           = Inr (built_state len h, of_int (16 ^ nat n mod k))"
    using assms(1-5) True by (rule expoMod_exact_built)
  moreover have "0 \<le> (16::int) ^ nat n mod k" "(16::int) ^ nat n mod k < k"
    using assms(5) by simp_all
  then have "\<bar>(of_int ((16::int) ^ nat n mod k) :: real)\<bar> \<le> of_int k + 2048"
    by (simp only: abs_of_nonneg of_int_0_le_iff)
  ultimately show ?thesis by blast
next
  case False
  then have klo: "4194304 \<le> k" by simp
  have "(of_int n :: real) \<le> of_int (2 ^ h)" using assms(4) by (simp only: of_int_le_iff)
  then have n: "(1::real) \<le> of_int n \<and> (of_int n :: real) \<le> 2 ^ h" using assms(3) by simp
  have "\<bar>1::real\<bar> \<le> of_int k + 2048" using assms(5) by simp
  from pow_loop_robust[OF klo assms(6) this]
  obtain r where "pow_loop (nat (bits_needed (of_int n) + 1)) (of_int k) (of_int n)
       (2 ^ nat (bits_needed (of_int n))) 1 = Inr r" "\<bar>r\<bar> \<le> of_int k + 2048" by blast
  then show ?thesis using n by (simp add: expoMod_built[OF assms(1)])
qed

lemma expoMod_total_fresh:
  fixes n k :: int
  assumes "30 < len" "1 \<le> n" "n \<le> 2 ^ 30" "1 \<le> k" "k \<le> 2147479549"
  shows "\<exists>r. expoMod (fresh_state len) (of_int n) (of_int k)
             = Inr (built_state len (tbl_top (of_int n)), r)
           \<and> \<bar>r\<bar> \<le> of_int k + 2048"
proof -
  have t: "tbl_top (of_int n) \<le> 30" using assms(3) by (rule tbl_top_of_int_le)
  then have l: "tbl_top (of_int n) < len" using assms(1) by simp
  have "expoMod (fresh_state len) (of_int n) (of_int k)
      = expoMod (built_state len (tbl_top (of_int n))) (of_int n) (of_int k)"
    by (rule expoMod_fresh[OF t l])
  then show ?thesis
    using expoMod_total_built[OF l t assms(2) of_int_le_pow_tbl_top assms(4,5)] by simp
qed


lemma floor_acc_bounds: "0 \<le> dsub x (c_floor x) \<and> dsub x (c_floor x) \<le> 1"
proof -
  have "0 \<le> x - of_int \<lfloor>x\<rfloor>" "x - of_int \<lfloor>x\<rfloor> \<le> 1" by linarith+
  then show ?thesis
    unfolding dsub_def c_floor_def by (intro rnd_between is_double_small_ints)
qed

lemma trunc_acc:
  assumes "\<bar>x\<bar> \<le> 4096"
  shows "d2i (rnd x) = Inr (c_trunc (rnd x))"
    and "\<bar>dsub (rnd x) (i2d (c_trunc (rnd x)))\<bar> < 1"
proof -
  have "is_double (of_int 4096)" by (rule is_double_of_int) simp
  then have "\<bar>rnd x\<bar> \<le> of_int 4096" using assms by (intro rnd_abs_le) simp_all
  then have "\<bar>c_trunc (rnd x)\<bar> \<le> 4096" by (rule c_trunc_abs_le)
  then show "d2i (rnd x) = Inr (c_trunc (rnd x))"
    unfolding d2i_def by (intro int_chk_num) simp_all
  have "dsub (rnd x) (i2d (c_trunc (rnd x))) = rnd x - of_int (c_trunc (rnd x))"
    by (intro dsub_trunc is_double_rnd)
  then show "\<bar>dsub (rnd x) (i2d (c_trunc (rnd x)))\<bar> < 1" by (simp add: trunc_diff_lt_1)
qed

lemma term_bound:
  fixes den :: int
  assumes "1 \<le> den" "\<bar>r\<bar> \<le> of_int den + 2048"
  shows "ddiv r (i2d den) = Inr (rnd (r / of_int den))" "\<bar>rnd (r / of_int den)\<bar> \<le> 2049"
proof -
  have d1: "(1::real) \<le> of_int den" using assms(1) by simp
  then show "ddiv r (i2d den) = Inr (rnd (r / of_int den))" by (simp add: ddiv_def i2d_def)
  have "\<bar>r / of_int den\<bar> = \<bar>r\<bar> / of_int den" using d1 by simp
  also have "\<dots> \<le> (of_int den + 2048) / of_int den"
    using assms(2) d1 by (intro divide_right_mono) simp_all
  also have "\<dots> = 1 + 2048 / of_int den" using d1 by (simp add: field_simps)
  also have "\<dots> \<le> 1 + 2048 / 1"
    using d1 by (intro add_left_mono divide_left_mono) simp_all
  finally have "\<bar>r / of_int den\<bar> \<le> of_int 2049" by simp
  moreover have "is_double (of_int 2049)" by (rule is_double_of_int) simp
  ultimately have "\<bar>rnd (r / of_int den)\<bar> \<le> of_int 2049" by (rule rnd_abs_le)
  then show "\<bar>rnd (r / of_int den)\<bar> \<le> 2049" by simp
qed

lemma lpt_loop_total_step:
  assumes "expoMod st (i2d (d - k)) (i2d (8 * k + j)) = Inr (st1, r)"
    and "\<bar>r\<bar> \<le> of_int (8 * k + j) + 2048"
    and "0 \<le> k" "1 \<le> j" "8 * k + j \<le> 2147479549" "0 \<le> d - k" "d - k \<le> 2147483647"
    and "k < kinit + terms" "kinit + terms \<le> 2147483647"
  shows "\<exists>s2. lpt_loop st terms kinit j d k s = lpt_loop st1 terms kinit j d (k + 1) s2
          \<and> 0 \<le> s2 \<and> s2 \<le> 1"
proof -
  have c1: "int_chk (kinit + terms) = Inr (kinit + terms)"
    using assms by (intro int_chk_num) simp_all
  have c2: "int_chk (8 * k) = Inr (8 * k)" using assms by (intro int_chk_num) linarith+
  have c3: "int_chk (8 * k + j) = Inr (8 * k + j)" using assms by (intro int_chk_num) linarith+
  have c4: "int_chk (d - k) = Inr (d - k)" using assms by (intro int_chk_num) linarith+
  have c5: "int_chk (k + 1) = Inr (k + 1)" using assms by (intro int_chk_num) linarith+
  have den: "1 \<le> 8 * k + j" using assms(3,4) by simp
  define t where "t = rnd (r / of_int (8 * k + j))"
  have q: "ddiv r (i2d (8 * k + j)) = Inr t"
    unfolding t_def by (rule term_bound(1)[OF den assms(2)])
  have "lpt_loop st terms kinit j d k s
      = lpt_loop st1 terms kinit j d (k + 1) (dsub (dadd s t) (c_floor (dadd s t)))"
    by (subst lpt_loop.simps) (simp add: c1 c2 c3 c4 c5 assms(1,8) q Let_def)
  then show ?thesis using floor_acc_bounds[of "dadd s t"] by blast
qed

lemma lpt_loop_total:
  assumes "h < len" "h \<le> 30" "1 \<le> j" "8 * (d - 1) + j \<le> 2147479549"
    and "kinit + terms \<le> d" "- 2147483648 \<le> kinit + terms"
  shows "0 \<le> k \<Longrightarrow> d - k \<le> 2 ^ h \<Longrightarrow> 0 \<le> s \<Longrightarrow> s \<le> 1
    \<Longrightarrow> \<exists>v. lpt_loop (built_state len h) terms kinit j d k s = Inr (built_state len h, v)
          \<and> 0 \<le> v \<and> v \<le> 1"
proof (induction "nat (kinit + terms - k)" arbitrary: k s rule: less_induct)
  case less
  have dmax: "d \<le> 2147483647" using assms(3,4) by simp
  show ?case
  proof (cases "k < kinit + terms")
    case False
    have c1: "int_chk (kinit + terms) = Inr (kinit + terms)"
      using assms(5,6) dmax by (intro int_chk_num) simp_all
    show ?thesis using False less.prems by (subst lpt_loop.simps) (simp add: c1)
  next
    case True
    then have kd: "k < d" using assms(5) by simp
    have den1: "1 \<le> 8 * k + j" using less.prems(1) assms(3) by simp
    have den2: "8 * k + j \<le> 2147479549" using kd assms(4) by simp
    obtain r where e: "expoMod (built_state len h) (of_int (d - k)) (of_int (8 * k + j))
        = Inr (built_state len h, r)" and rb: "\<bar>r\<bar> \<le> of_int (8 * k + j) + 2048"
      using expoMod_total_built[OF assms(1,2) _ less.prems(2) den1 den2] kd by auto
    have e': "expoMod (built_state len h) (i2d (d - k)) (i2d (8 * k + j))
        = Inr (built_state len h, r)" using e by (simp add: i2d_def)
    have "\<exists>s2. lpt_loop (built_state len h) terms kinit j d k s
          = lpt_loop (built_state len h) terms kinit j d (k + 1) s2 \<and> 0 \<le> s2 \<and> s2 \<le> 1"
      using e' rb less.prems(1) assms(3) den2 _ _ True
      by (rule lpt_loop_total_step) (use kd dmax less.prems(1) assms(5) in simp_all)
    then obtain s2 where st: "lpt_loop (built_state len h) terms kinit j d k s
          = lpt_loop (built_state len h) terms kinit j d (k + 1) s2" "0 \<le> s2" "s2 \<le> 1" by blast
    have "\<exists>v. lpt_loop (built_state len h) terms kinit j d (k + 1) s2 = Inr (built_state len h, v)
          \<and> 0 \<le> v \<and> v \<le> 1"
    proof (rule less.hyps)
      show "nat (kinit + terms - (k + 1)) < nat (kinit + terms - k)" using True by simp
      show "0 \<le> k + 1" using less.prems(1) by simp
      show "d - (k + 1) \<le> 2 ^ h" using less.prems(2) by simp
      show "0 \<le> s2" "s2 \<le> 1" by (rule st)+
    qed
    then show ?thesis using st(1) by simp
  qed
qed

lemma leftPortionThreaded_total:
  assumes "h < len" "h \<le> 30" "1 \<le> j" "8 * (d - 1) + j \<le> 2147479549"
    and "0 \<le> k0" "0 \<le> c" "k0 + c \<le> d" "d - k0 \<le> 2 ^ h"
  shows "\<exists>v. leftPortionThreaded c (built_state len h) k0 j d = Inr (built_state len h, v)
          \<and> 0 \<le> v \<and> v \<le> 1"
  unfolding leftPortionThreaded_def
  using assms(1-4,7) _ assms(5,8)
  by (rule lpt_loop_total) (use assms(5,6) in simp_all)

lemma leftPortionThreaded_total_fresh:
  assumes "30 < len" "1 \<le> j" "8 * (d - 1) + j \<le> 2147479549"
    and "0 \<le> k0" "1 \<le> c" "k0 + c \<le> d" "d - k0 \<le> 2 ^ 30"
  shows "\<exists>v. leftPortionThreaded c (fresh_state len) k0 j d
            = Inr (built_state len (tbl_top (of_int (d - k0))), v)
          \<and> 0 \<le> v \<and> v \<le> 1"
proof -
  define h where "h = tbl_top (of_int (d - k0))"
  have h30: "h \<le> 30" unfolding h_def using assms(7) by (rule tbl_top_of_int_le)
  then have hl: "h < len" using assms(1) by simp
  have dh: "d - k0 \<le> 2 ^ h" unfolding h_def by (rule of_int_le_pow_tbl_top)
  have dmax: "d \<le> 2147483647" using assms(2,3) by simp
  have kd: "k0 < d" using assms(5,6) by simp
  have den1: "1 \<le> 8 * k0 + j" using assms(4,2) by simp
  have den2: "8 * k0 + j \<le> 2147479549" using kd assms(3) by simp
  obtain r where e: "expoMod (fresh_state len) (of_int (d - k0)) (of_int (8 * k0 + j))
        = Inr (built_state len h, r)" and rb: "\<bar>r\<bar> \<le> of_int (8 * k0 + j) + 2048"
    using expoMod_total_fresh[OF assms(1) _ assms(7) den1 den2] kd by (auto simp: h_def)
  have e': "expoMod (fresh_state len) (i2d (d - k0)) (i2d (8 * k0 + j))
        = Inr (built_state len h, r)" using e by (simp add: i2d_def)
  have "\<exists>s2. lpt_loop (fresh_state len) c k0 j d k0 0
          = lpt_loop (built_state len h) c k0 j d (k0 + 1) s2 \<and> 0 \<le> s2 \<and> s2 \<le> 1"
    using e' rb assms(4,2) den2
    by (rule lpt_loop_total_step) (use kd dmax assms(4,5,6) in simp_all)
  then obtain s2 where st: "lpt_loop (fresh_state len) c k0 j d k0 0
          = lpt_loop (built_state len h) c k0 j d (k0 + 1) s2" "0 \<le> s2" "s2 \<le> 1" by blast
  have "\<exists>v. lpt_loop (built_state len h) c k0 j d (k0 + 1) s2 = Inr (built_state len h, v)
          \<and> 0 \<le> v \<and> v \<le> 1"
    using hl h30 assms(2,3,6) _ _ _ st(2,3)
    by (rule lpt_loop_total) (use assms(4,5) dh in simp_all)
  then show ?thesis unfolding leftPortionThreaded_def st(1) h_def[symmetric] .
qed

lemma seq_term_total_step:
  assumes "expoMod st (i2d (d - k)) (i2d (8 * k + j)) = Inr (st1, r)"
    and "\<bar>r\<bar> \<le> of_int (8 * k + j) + 2048"
    and "0 \<le> k" "1 \<le> j" "8 * k + j \<le> 2147479549" "0 \<le> d - k" "d - k \<le> 2147483647"
    and "\<bar>s\<bar> < 1"
  shows "\<exists>s1. seq_term st j d k s = Inr (st1, k + 1, s1) \<and> \<bar>s1\<bar> < 1"
proof -
  have c2: "int_chk (8 * k) = Inr (8 * k)" using assms by (intro int_chk_num) linarith+
  have c3: "int_chk (8 * k + j) = Inr (8 * k + j)" using assms by (intro int_chk_num) linarith+
  have c4: "int_chk (d - k) = Inr (d - k)" using assms by (intro int_chk_num) linarith+
  have c5: "int_chk (k + 1) = Inr (k + 1)" using assms by (intro int_chk_num) linarith+
  have den: "1 \<le> 8 * k + j" using assms(3,4) by simp
  define t where "t = rnd (r / of_int (8 * k + j))"
  have q: "ddiv r (i2d (8 * k + j)) = Inr t"
    unfolding t_def by (rule term_bound(1)[OF den assms(2)])
  have tb: "\<bar>t\<bar> \<le> 2049" unfolding t_def by (rule term_bound(2)[OF den assms(2)])
  have "\<bar>s + t\<bar> \<le> 4096" using tb assms(8) by linarith
  note ta = trunc_acc[OF this]
  have "seq_term st j d k s
      = Inr (st1, k + 1, dsub (rnd (s + t)) (i2d (c_trunc (rnd (s + t)))))"
    by (simp add: seq_term_def c2 c3 c4 c5 assms(1) q Let_def dadd_def ta(1))
  then show ?thesis using ta(2) by blast
qed

lemma collect_total:
  assumes "\<forall>r\<in>set rs. 0 \<le> r \<and> r \<le> 1" "\<bar>s\<bar> < 1"
  shows "\<exists>s'. collect rs s = Inr s' \<and> \<bar>s'\<bar> < 1"
  using assms
proof (induction rs arbitrary: s)
  case Nil
  then show ?case by simp
next
  case (Cons r rs)
  have "0 \<le> r" "r \<le> 1" using Cons.prems(1) by simp_all
  then have "\<bar>s + r\<bar> \<le> 4096" using Cons.prems(2) by linarith
  note ta = trunc_acc[OF this]
  have "\<exists>s'. collect rs (dsub (rnd (s + r)) (i2d (c_trunc (rnd (s + r))))) = Inr s' \<and> \<bar>s'\<bar> < 1"
    using Cons.prems(1) ta(2) by (intro Cons.IH) simp_all
  then show ?case by (simp add: Let_def dadd_def ta(1))
qed


lemma run_threads_total:
  assumes "h < len" "h \<le> 30" "1 \<le> j" "8 * (d - 1) + j \<le> 2147479549"
  shows "0 \<le> k \<Longrightarrow> k + 100000 * int c \<le> d \<Longrightarrow> d - k \<le> 2 ^ h
    \<Longrightarrow> \<exists>rs. run_threads c (built_state len h) k j d
            = Inr (built_state len h, k + 100000 * int c, rs)
          \<and> (\<forall>r\<in>set rs. 0 \<le> r \<and> r \<le> 1)"
proof (induction c arbitrary: k)
  case 0
  then show ?case by simp
next
  case (Suc c)
  have kd: "k + 100000 \<le> d" using Suc.prems(2) by simp
  obtain v where ch: "leftPortionThreaded 100000 (built_state len h) k j d
      = Inr (built_state len h, v)" and v: "0 \<le> v" "v \<le> 1"
    using leftPortionThreaded_total[OF assms Suc.prems(1) _ kd Suc.prems(3)] by auto
  have d12: "d \<le> 2147483647" using assms(3,4) by simp
  have c1: "int_chk (k + 100000) = Inr (k + 100000)"
    using kd d12 Suc.prems(1) by (intro int_chk_num) simp_all
  have "\<exists>rs. run_threads c (built_state len h) (k + 100000) j d
            = Inr (built_state len h, k + 100000 + 100000 * int c, rs)
          \<and> (\<forall>r\<in>set rs. 0 \<le> r \<and> r \<le> 1)"
    using Suc.prems by (intro Suc.IH) simp_all
  then obtain rs where rs:
    "run_threads c (built_state len h) (k + 100000) j d
            = Inr (built_state len h, k + 100000 + 100000 * int c, rs)"
    "\<forall>r\<in>set rs. 0 \<le> r \<and> r \<le> 1" by blast
  show ?case using ch c1 rs v by (simp add: algebra_simps)
qed

lemma left_body_total:
  assumes "h < len" "h \<le> 30" "1 \<le> j" "8 * (d - 1) + j \<le> 2147479549"
    and "0 \<le> k" "k < d" "d - k \<le> 2 ^ h" "100000 * int T + d \<le> 2 ^ 32"
    and "\<bar>s\<bar> < 1"
  shows "\<exists>s1. left_body T (built_state len h) j d k s
            = Inr (built_state len h,
                   (if k + 100000 * int T < d then k + 100000 * int T else k + 1), s1)
          \<and> \<bar>s1\<bar> < 1"
proof -
  have "0 \<le> k + 100000 * int T" "k + 100000 * int T < 2 ^ 32" using assms(5,6,8) by simp_all
  then have m: "(k + 100000 * int T) mod 2 ^ 32 = k + 100000 * int T" by simp
  show ?thesis
  proof (cases "k + 100000 * int T < d")
    case True
    have "\<exists>rs. run_threads T (built_state len h) k j d
            = Inr (built_state len h, k + 100000 * int T, rs)
          \<and> (\<forall>r\<in>set rs. 0 \<le> r \<and> r \<le> 1)"
      using assms(1-5) _ assms(7) by (rule run_threads_total) (use True in simp)
    then obtain rs where rs: "run_threads T (built_state len h) k j d
            = Inr (built_state len h, k + 100000 * int T, rs)"
        "\<forall>r\<in>set rs. 0 \<le> r \<and> r \<le> 1" by blast
    have "\<exists>s'. collect (rev rs) s = Inr s' \<and> \<bar>s'\<bar> < 1"
      using rs(2) assms(9) by (intro collect_total) simp_all
    then obtain s' where s': "collect (rev rs) s = Inr s'" "\<bar>s'\<bar> < 1" by blast
    show ?thesis using True m rs(1) s' by (simp add: left_body_def data_race_def)
  next
    case False
    have den2: "8 * k + j \<le> 2147479549" using assms(4,6) by simp
    have den1: "1 \<le> 8 * k + j" using assms(3,5) by simp
    have dmax: "d \<le> 2147483647" using assms(3,4) by simp
    obtain r where e: "expoMod (built_state len h) (of_int (d - k)) (of_int (8 * k + j))
        = Inr (built_state len h, r)" and rb: "\<bar>r\<bar> \<le> of_int (8 * k + j) + 2048"
      using expoMod_total_built[OF assms(1,2) _ assms(7) den1 den2] assms(6) by auto
    have e': "expoMod (built_state len h) (i2d (d - k)) (i2d (8 * k + j))
        = Inr (built_state len h, r)" using e by (simp add: i2d_def)
    have "\<exists>s1. seq_term (built_state len h) j d k s = Inr (built_state len h, k + 1, s1)
            \<and> \<bar>s1\<bar> < 1"
      using e' rb assms(5,3) den2 _ _ assms(9)
      by (rule seq_term_total_step) (use assms(5,6) dmax in simp_all)
    then show ?thesis using False m by (simp add: left_body_def)
  qed
qed

lemma left_body_total_fresh:
  assumes "30 < len" "1 \<le> j" "8 * (d - 1) + j \<le> 2147479549"
    and "0 \<le> k" "k < d" "d - k \<le> 2 ^ 30" "100000 * int T + d \<le> 2 ^ 32"
    and "T = 1 \<or> d \<le> k + 100000 * int T"
    and "\<bar>s\<bar> < 1"
  shows "\<exists>s1. left_body T (fresh_state len) j d k s
            = Inr (built_state len (tbl_top (of_int (d - k))),
                   (if k + 100000 * int T < d then k + 100000 * int T else k + 1), s1)
          \<and> \<bar>s1\<bar> < 1"
proof -
  have "0 \<le> k + 100000 * int T" "k + 100000 * int T < 2 ^ 32" using assms(4,5,7) by simp_all
  then have m: "(k + 100000 * int T) mod 2 ^ 32 = k + 100000 * int T" by simp
  have dmax: "d \<le> 2147483647" using assms(2,3) by simp
  show ?thesis
  proof (cases "k + 100000 * int T < d")
    case True
    then have T1: "T = Suc 0" using assms(8) by simp
    have kd: "k + 100000 \<le> d" using True T1 by simp
    obtain v where ch: "leftPortionThreaded 100000 (fresh_state len) k j d
        = Inr (built_state len (tbl_top (of_int (d - k))), v)" and v: "0 \<le> v" "v \<le> 1"
      using leftPortionThreaded_total_fresh[OF assms(1,2,3,4) _ kd assms(6)] by auto
    have c1: "int_chk (k + 100000) = Inr (k + 100000)"
      using kd dmax assms(4) by (intro int_chk_num) simp_all
    have rt: "run_threads (Suc 0) (fresh_state len) k j d
        = Inr (built_state len (tbl_top (of_int (d - k))), k + 100000, [v])"
      by (simp add: ch c1)
    have "\<bar>s + v\<bar> \<le> 4096" using v assms(9) by linarith
    note ta = trunc_acc[OF this]
    have "collect (rev [v]) s = Inr (dsub (rnd (s + v)) (i2d (c_trunc (rnd (s + v)))))"
      by (simp add: Let_def dadd_def ta(1))
    then show ?thesis using True m rt ta(2) unfolding T1 by (simp add: left_body_def data_race_def)
  next
    case False
    have den2: "8 * k + j \<le> 2147479549" using assms(3,5) by simp
    have den1: "1 \<le> 8 * k + j" using assms(2,4) by simp
    obtain r where e: "expoMod (fresh_state len) (of_int (d - k)) (of_int (8 * k + j))
        = Inr (built_state len (tbl_top (of_int (d - k))), r)"
      and rb: "\<bar>r\<bar> \<le> of_int (8 * k + j) + 2048"
      using expoMod_total_fresh[OF assms(1) _ assms(6) den1 den2] assms(5) by auto
    have e': "expoMod (fresh_state len) (i2d (d - k)) (i2d (8 * k + j))
        = Inr (built_state len (tbl_top (of_int (d - k))), r)" using e by (simp add: i2d_def)
    have "\<exists>s1. seq_term (fresh_state len) j d k s
            = Inr (built_state len (tbl_top (of_int (d - k))), k + 1, s1) \<and> \<bar>s1\<bar> < 1"
      using e' rb assms(4,2) den2 _ _ assms(9)
      by (rule seq_term_total_step) (use assms(4,5) dmax in simp_all)
    then show ?thesis using False m by (simp add: left_body_def)
  qed
qed

lemma left_portion_total:
  assumes "h < len" "h \<le> 30" "1 \<le> j" "8 * (d - 1) + j \<le> 2147479549"
    and "1 \<le> T" "100000 * int T + d \<le> 2 ^ 32"
  shows "0 \<le> k \<Longrightarrow> k \<le> d \<Longrightarrow> d - k \<le> 2 ^ h \<Longrightarrow> \<bar>s\<bar> < 1
    \<Longrightarrow> \<exists>s'. left_portion T j d (built_state len h) k s = Some (Inr (built_state len h, s'))
          \<and> \<bar>s'\<bar> < 1"
proof (induction "nat (d - k)" arbitrary: k s rule: less_induct)
  case less
  show ?case
  proof (cases "k < d")
    case False
    then show ?thesis using less.prems by (subst left_portion.simps) simp
  next
    case True
    define k1 where "k1 = (if k + 100000 * int T < d then k + 100000 * int T else k + 1)"
    have "\<exists>s1. left_body T (built_state len h) j d k s
            = Inr (built_state len h, k1, s1) \<and> \<bar>s1\<bar> < 1"
      unfolding k1_def
      using assms(1-4) less.prems(1) True less.prems(3) assms(6) less.prems(4)
      by (rule left_body_total)
    then obtain s1 where s1: "left_body T (built_state len h) j d k s
            = Inr (built_state len h, k1, s1)" "\<bar>s1\<bar> < 1" by blast
    have T0: "0 < 100000 * int T" using assms(5) by simp
    have k1a: "k < k1" using T0 by (simp only: k1_def split: if_split) simp
    have k1b: "k1 \<le> d" using True by (simp only: k1_def split: if_split) simp
    have "\<exists>s'. left_portion T j d (built_state len h) k1 s1 = Some (Inr (built_state len h, s'))
          \<and> \<bar>s'\<bar> < 1"
    proof (rule less.hyps)
      show "nat (d - k1) < nat (d - k)" using k1a True by simp
      show "0 \<le> k1" using k1a less.prems(1) by simp
      show "k1 \<le> d" by (rule k1b)
      show "d - k1 \<le> 2 ^ h" using k1a less.prems(3) by simp
      show "\<bar>s1\<bar> < 1" by (rule s1)
    qed
    then show ?thesis using True s1(1) by (subst left_portion.simps) simp
  qed
qed

lemma right_step_total:
  assumes "0 \<le> d" "d \<le> 268435448" "d \<le> k" "k \<le> d + 100"
    and "1 \<le> j" "8 * k + j \<le> 2147483647" "\<bar>s\<bar> < 1"
  shows "\<exists>s1. right_portion j d k s =
     (if right_term j d k < c_1e17 then Inr (s, k) else right_portion j d (k + 1) s1)
     \<and> \<bar>s1\<bar> < 1"
proof -
  have c1: "int_chk (d + 100) = Inr (d + 100)" using assms by (intro int_chk_num) simp_all
  have c2: "int_chk (d - k) = Inr (d - k)" using assms by (intro int_chk_num) simp_all
  have c3: "int_chk (8 * k) = Inr (8 * k)" using assms by (intro int_chk_num) simp_all
  have c4: "int_chk (8 * k + j) = Inr (8 * k + j)" using assms by (intro int_chk_num) simp_all
  have c5: "int_chk (k + 1) = Inr (k + 1)" using assms by (intro int_chk_num) simp_all
  have den: "1 \<le> 8 * k + j" using assms by simp
  then have q: "ddiv (c_pow16 (d - k)) (i2d (8 * k + j)) = Inr (right_term j d k)"
    by (intro right_term_ddiv) simp
  have t0: "0 \<le> right_term j d k" using den by (intro right_term_nonneg) simp
  have t1: "right_term j d k \<le> 1" using den assms(3) by (rule right_term_le_one)
  have "\<bar>s + right_term j d k\<bar> \<le> 4096" using t0 t1 assms(7) by linarith
  note ta = trunc_acc[OF this]
  have "right_portion j d k s =
     (if right_term j d k < c_1e17 then Inr (s, k)
      else right_portion j d (k + 1)
        (dsub (rnd (s + right_term j d k)) (i2d (c_trunc (rnd (s + right_term j d k))))))"
    by (subst right_portion.simps) (simp add: c1 c2 c3 c4 c5 q ta(1) assms(4) Let_def dadd_def)
  then show ?thesis using ta(2) by blast
qed

lemma right_loop_total:
  assumes "0 \<le> d" "d \<le> 268435448" "1 \<le> j" "K \<le> d + 100" "8 * K + j \<le> 2147483647"
    and "right_term j d K < c_1e17"
  shows "m = nat (K - k) \<Longrightarrow> d \<le> k \<Longrightarrow> k \<le> K \<Longrightarrow> \<bar>s\<bar> < 1
    \<Longrightarrow> \<exists>s' kb. right_portion j d k s = Inr (s', kb)
          \<and> k \<le> kb \<and> kb \<le> K \<and> right_term j d kb < c_1e17 \<and> \<bar>s'\<bar> < 1"
proof (induction m arbitrary: k s)
  case 0
  then have k: "k = K" by simp
  obtain s1 where "right_portion j d K s =
     (if right_term j d K < c_1e17 then Inr (s, K) else right_portion j d (K + 1) s1)"
    using right_step_total[OF assms(1,2) _ assms(4,3,5), of s] 0 k by auto
  then have "right_portion j d K s = Inr (s, K)" using assms(6) by simp
  then show ?case using assms(6) k 0 by simp
next
  case (Suc m)
  then have lt: "k < K" by simp
  have k100: "k \<le> d + 100" using lt assms(4) by simp
  have k8: "8 * k + j \<le> 2147483647" using lt assms(5) by simp
  obtain s1 where st: "right_portion j d k s =
     (if right_term j d k < c_1e17 then Inr (s, k) else right_portion j d (k + 1) s1)"
    and s1: "\<bar>s1\<bar> < 1"
    using right_step_total[OF assms(1,2) Suc.prems(2) k100 assms(3) k8 Suc.prems(4)] by blast
  show ?case
  proof (cases "right_term j d k < c_1e17")
    case True
    then have "right_portion j d k s = Inr (s, k)" using st by simp
    then show ?thesis using True lt Suc.prems(4) by simp
  next
    case False
    have "\<exists>s' kb. right_portion j d (k + 1) s1 = Inr (s', kb)
          \<and> k + 1 \<le> kb \<and> kb \<le> K \<and> right_term j d kb < c_1e17 \<and> \<bar>s'\<bar> < 1"
    proof (rule Suc.IH)
      show "m = nat (K - (k + 1))" using Suc.prems(1) by linarith
      show "d \<le> k + 1" using Suc.prems(2) by simp
      show "k + 1 \<le> K" using lt by simp
      show "\<bar>s1\<bar> < 1" by (rule s1)
    qed
    then obtain s' kb where r: "right_portion j d (k + 1) s1 = Inr (s', kb)"
      "k + 1 \<le> kb" "kb \<le> K" "right_term j d kb < c_1e17" "\<bar>s'\<bar> < 1" by blast
    have "right_portion j d k s = Inr (s', kb)" using st False r(1) by simp
    then show ?thesis using r by auto
  qed
qed

lemma right_portion_total:
  assumes "0 \<le> d" "d \<le> 268435448" "1 \<le> j" "j \<le> 6" "\<bar>s\<bar> < 1"
  shows "\<exists>s' kb. right_portion j d d s = Inr (s', kb) \<and> d < kb \<and> kb \<le> d + 13 \<and> \<bar>s'\<bar> < 1"
proof -
  define K where "K = (if 67108864 \<le> d then d + 7 else d + 13)"
  have K: "K \<le> d + 100" "K \<le> d + 13" "d \<le> K" "8 * K + j \<le> 2147483647"
    using assms(1,2,3,4) by (auto simp: K_def)
  have small: "right_term j d K < c_1e17"
    using right_term_13[OF assms(1,3)] right_term_7[OF _ assms(3), of d] by (auto simp: K_def)
  obtain s' kb where kb: "right_portion j d d s = Inr (s', kb)"
    "d \<le> kb" "kb \<le> K" "right_term j d kb < c_1e17" "\<bar>s'\<bar> < 1"
    using right_loop_total[OF assms(1,2,3) K(1,4) small refl _ K(3) assms(5)] by auto
  have first: "c_1e17 \<le> right_term j d d"
    using assms(1,2,3,4) by (intro right_term_first) simp_all
  then have "kb \<noteq> d" using kb(4) by auto
  then have lt: "d < kb" using kb(2) by simp
  show ?thesis using kb(1,5) lt kb(3) K(2) by auto
qed

lemma bbpf16jsd_total_built:
  assumes "h < len" "h \<le> 30" "j \<in> {1, 4, 5, 6}" "8 * (d - 1) + j \<le> 2147479549"
    and "1 \<le> T" "100000 * int T + d \<le> 2 ^ 32" "0 \<le> d" "d \<le> 2 ^ h"
  shows "\<exists>s. bbpf16jsd T (built_state len h) j d = Some (Inr (built_state len h, s)) \<and> \<bar>s\<bar> < 1"
proof -
  have j: "1 \<le> j" "j \<le> 6" using assms(3) by auto
  have "\<exists>s'. left_portion T j d (built_state len h) 0 0 = Some (Inr (built_state len h, s'))
          \<and> \<bar>s'\<bar> < 1"
    using assms(1,2) j(1) assms(4,5,6) by (rule left_portion_total) (use assms in simp_all)
  then obtain s' where s': "left_portion T j d (built_state len h) 0 0
       = Some (Inr (built_state len h, s'))" "\<bar>s'\<bar> < 1" by blast
  have d: "d \<le> 268435448" using assms(4) j by simp
  obtain s2 kb where r: "right_portion j d d s' = Inr (s2, kb)" "\<bar>s2\<bar> < 1"
    using right_portion_total[OF assms(7) d j s'(2)] by blast
  show ?thesis using s'(1) r by (simp add: bbpf16jsd_def)
qed

lemma bbpf16jsd_total_fresh:
  assumes "30 < len" "j \<in> {1, 4, 5, 6}" "8 * (d - 1) + j \<le> 2147479549"
    and "1 \<le> T" "100000 * int T + d \<le> 2 ^ 32" "0 \<le> d"
    and "T = 1 \<or> d \<le> 100000 * int T"
  shows "\<exists>s. bbpf16jsd T (fresh_state len) j d
            = Some (Inr (if d = 0 then fresh_state len else built_state len (tbl_top (of_int d)), s))
          \<and> \<bar>s\<bar> < 1"
proof -
  have j: "1 \<le> j" "j \<le> 6" using assms(2) by auto
  have d: "d \<le> 268435448" using assms(3) j by simp
  define st' where "st' = (if d = 0 then fresh_state len else built_state len (tbl_top (of_int d)))"
  have "\<exists>s'. left_portion T j d (fresh_state len) 0 0 = Some (Inr (st', s')) \<and> \<bar>s'\<bar> < 1"
  proof (cases "d = 0")
    case True
    then show ?thesis by (subst left_portion.simps) (simp add: st'_def)
  next
    case False
    then have d0: "0 < d" using assms(6) by simp
    have st': "st' = built_state len (tbl_top (of_int d))" using False by (simp add: st'_def)
    define h where "h = tbl_top (of_int d)"
    have d30: "d \<le> 2 ^ 30" using d by simp
    have h30: "h \<le> 30" unfolding h_def using d30 by (intro tbl_top_of_int_le) simp
    then have hl: "h < len" using assms(1) by simp
    have dh: "d \<le> 2 ^ h" unfolding h_def by (rule of_int_le_pow_tbl_top)
    define k1 where "k1 = (if 0 + 100000 * int T < d then 0 + 100000 * int T else 0 + 1)"
    have "\<exists>s1. left_body T (fresh_state len) j d 0 0
            = Inr (built_state len (tbl_top (of_int (d - 0))), k1, s1) \<and> \<bar>s1\<bar> < 1"
      unfolding k1_def
      using assms(1) j(1) assms(3) _ d0 _ assms(5)
      by (rule left_body_total_fresh) (use assms(7) d30 in simp_all)
    then obtain s1 where s1: "left_body T (fresh_state len) j d 0 0
            = Inr (built_state len h, k1, s1)" "\<bar>s1\<bar> < 1"
      by (auto simp: h_def)
    have T0: "0 < 100000 * int T" using assms(4) by simp
    have k1a: "0 < k1" using T0 by (simp only: k1_def add_0 split: if_split) simp
    have k1b: "k1 \<le> d" using d0 by (simp only: k1_def add_0 split: if_split) simp
    have "\<exists>s'. left_portion T j d (built_state len h) k1 s1 = Some (Inr (built_state len h, s'))
          \<and> \<bar>s'\<bar> < 1"
      using hl h30 j(1) assms(3,4,5) _ k1b _ s1(2)
      by (rule left_portion_total) (use k1a dh in simp_all)
    then show ?thesis
      using d0 s1(1) unfolding st' h_def[symmetric] by (subst left_portion.simps) simp
  qed
  then obtain s' where s': "left_portion T j d (fresh_state len) 0 0 = Some (Inr (st', s'))"
       "\<bar>s'\<bar> < 1" by blast
  obtain s2 kb where r: "right_portion j d d s' = Inr (s2, kb)" "\<bar>s2\<bar> < 1"
    using right_portion_total[OF assms(6) d j s'(2)] by blast
  show ?thesis using s'(1) r unfolding st'_def by (simp add: bbpf16jsd_def)
qed

section \<open>The claims\<close>

subsection \<open>C1: expoMod against the exact reference\<close>

text \<open>
  Claim C1 says that for every exponent \<open>n\<close> from 1 to 20 and every modulus
  \<open>k\<close> from 1 to \<open>10 ^ 6\<close>, \<open>expoMod n k\<close> returns
  \<open>16 ^ n mod k\<close>. The value of a call also depends on the table that the first
  call of the process has left, which the claim does not mention: a first call with
  exponent 3 returns \<open>16 ^ 3 mod 1000 = 96\<close> and leaves the table 1, 2, 4, and
  the call with exponent 20 and modulus 1000 that follows does not return
  \<open>16 ^ 20 mod 1000 = 176\<close> but scans past the end of the array.
\<close>

theorem expoMod_small_table_counterexample:
  "expoMod (fresh_state 64) 3 1000 = Inr (built_state 64 2, 96)
   \<and> expoMod (built_state 64 2) 20 1000 = Inl OutOfBounds"
  by (simp add: expoMod_eval cong: ebind_weak_cong)

text \<open>
  C1 as amended: for every exponent \<open>n\<close> from 1 to 20 and every modulus
  \<open>k\<close> from 1 to \<open>10 ^ 6\<close>, \<open>expoMod n k\<close> returns
  \<open>16 ^ n mod k\<close>, the value of the exact integer reference, when the call is
  the first of the process (the table is still uninitialised; its length is 64 in the CPU
  program and 32 in the GPU program) or finds a table whose largest entry \<open>2 ^ h\<close>
  is at least \<open>n\<close>. The power \<open>16 ^ n\<close> is never formed: the loop
  only multiplies residues below \<open>k\<close> by 16 or by themselves, and each product is
  below \<open>2 ^ 53\<close>, so every double operation of the call is exact.
\<close>

theorem expoMod_small_exact:
  fixes n k :: int
  assumes "1 \<le> n" "n \<le> 20" "1 \<le> k" "k \<le> 10 ^ 6"
  shows "(30 < len \<longrightarrow>
            expoMod (fresh_state len) (of_int n) (of_int k)
              = Inr (built_state len (tbl_top (of_int n)), of_int (16 ^ nat n mod k)))
       \<and> (h < len \<and> h \<le> 30 \<and> n \<le> 2 ^ h \<longrightarrow>
            expoMod (built_state len h) (of_int n) (of_int k)
              = Inr (built_state len h, of_int (16 ^ nat n mod k)))"
proof -
  have n30: "n \<le> 2 ^ 30" using assms(2) by simp
  have k: "k \<le> 94906265" using assms(4) by simp
  show ?thesis
    using expoMod_exact_fresh[OF _ assms(1) n30 assms(3) k, of len]
      expoMod_exact_built[OF _ _ assms(1) _ assms(3) k, of h len]
    by simp
qed

theorem expoMod_small_exact_witness:
  "(1::int) \<le> 20 \<and> (20::int) \<le> 20 \<and> (1::int) \<le> 1000 \<and> (1000::int) \<le> 10 ^ 6
   \<and> expoMod (fresh_state 64) 20 1000 = Inr (built_state 64 5, 176)
   \<and> expoMod (built_state 32 7) 20 1000 = Inr (built_state 32 7, 176)"
proof -
  have t: "tbl_top 20 = 5" by (simp add: expoMod_eval)
  have a: "(1::int) \<le> 20" "(20::int) \<le> 20" "(1::int) \<le> 1000" "(1000::int) \<le> 10 ^ 6" by simp_all
  from expoMod_small_exact[OF a, where len = 64 and h = 5]
    expoMod_small_exact[OF a, where len = 32 and h = 7] t
  show ?thesis by simp
qed

subsection \<open>C2: the combination step of bbpfCalc\<close>

text \<open>
  Claim C2 says that the value written by \<open>bbpfCalc\<close> is the combination
  \<open>4 S1 - 2 S4 - S5 - S6\<close> reduced into the interval from 0 (included) to 1 (excluded),
  and that 1 is added only when the raw combination is negative. The code adds 1 in every
  case, after the truncation: for \<open>S1 = 1/2\<close> and the other three sums 0 the raw
  combination is 2 and the value written is exactly 1, outside that interval.
\<close>

theorem combine_half_counterexample: "combine (1/2) 0 0 0 = Inr 1"
  by (simp add: combine_def dbl_eval)

text \<open>
  C2 as amended: for series values between 0 and 1, the value written is the rounded sum
  of 1 and the raw combination minus its truncation towards zero; 1 is added
  unconditionally. The value is positive and at most 2; it is at least 1 when the raw
  combination is not negative and at most 1 when it is negative. The reduction into the
  unit interval is left to the first step of \<open>toHex\<close>.
\<close>

theorem combine_adds_one_always:
  assumes "0 \<le> s1" "s1 < 1" "0 \<le> s4" "s4 < 1" "0 \<le> s5" "s5 < 1" "0 \<le> s6" "s6 < 1"
  shows "combine s1 s4 s5 s6 =
           Inr (rnd (raw_combination s1 s4 s5 s6 - of_int (c_trunc (raw_combination s1 s4 s5 s6)) + 1))
       \<and> (\<forall>x. combine s1 s4 s5 s6 = Inr x \<longrightarrow>
             0 < x \<and> x \<le> 2
           \<and> (0 \<le> raw_combination s1 s4 s5 s6 \<longrightarrow> 1 \<le> x)
           \<and> (raw_combination s1 s4 s5 s6 < 0 \<longrightarrow> x \<le> 1))"
proof -
  define raw where "raw = raw_combination s1 s4 s5 s6"
  define fr where "fr = raw - of_int (c_trunc raw)"
  have rb: "- 4 \<le> raw" "raw \<le> 4" using raw_combination_bounds[OF assms] by (simp_all add: raw_def)
  have dr: "is_double raw" unfolding raw_def raw_combination_def dsub_def[of _ s6] by (rule is_double_rnd)
  have "\<bar>raw\<bar> \<le> of_int 4" using rb by simp
  then have "\<bar>c_trunc raw\<bar> \<le> 4" by (rule c_trunc_abs_le)
  then have chk: "d2i raw = Inr (c_trunc raw)"
    unfolding d2i_def by (intro int_chk_ok) simp_all
  have eq: "combine s1 s4 s5 s6 = Inr (rnd (fr + 1))"
    using chk dsub_trunc[OF dr]
    by (simp add: combine_def Let_def raw_def[symmetric] raw_combination_def[symmetric] dadd_def fr_def)
  note d12 = is_double_small_ints
  have f: "- 1 < fr" "fr < 1" "0 \<le> raw \<Longrightarrow> 0 \<le> fr" "raw < 0 \<Longrightarrow> fr \<le> 0"
    using sub_trunc_bounds[of raw] unfolding fr_def by (cases "0 \<le> raw"; simp)+
  have p: "0 < rnd (fr + 1)" using f by (intro rnd_pos) simp
  have u: "rnd (fr + 1) \<le> 2" using f d12 by (intro rnd_le_double) simp_all
  have g: "0 \<le> raw \<Longrightarrow> 1 \<le> rnd (fr + 1)" using f d12 by (intro rnd_ge_double) simp_all
  have l: "raw < 0 \<Longrightarrow> rnd (fr + 1) \<le> 1" using f d12 by (intro rnd_le_double) simp_all
  show ?thesis
    unfolding raw_def[symmetric] eq using p u g l by (simp add: fr_def)
qed

theorem combine_adds_one_always_witness:
  "(0::real) \<le> 1/8 \<and> (1/8::real) < 1 \<and> (0::real) \<le> 3/4 \<and> (3/4::real) < 1
   \<and> raw_combination (1/8) (3/4) 0 0 = - 1 \<and> combine (1/8) (3/4) 0 0 = Inr 1"
  using combine_adds_one_always[of "1/8" "3/4" 0 0]
  by (simp add: raw_combination_def dbl_eval)

subsection \<open>C3: the first nine digits\<close>

text \<open>
  Claim C3: for the requested position 1, that is the digit position \<open>d = 0\<close>,
  \<open>bbpfCalc\<close> followed by \<open>toHex\<close> produces the nine characters
  \<open>243F6A888\<close>. At \<open>d = 0\<close> the left portion adds no term, so the result
  does not depend on the number of worker threads nor on the state of the table; the
  four right portions stop at \<open>k = 13\<close>.
\<close>

theorem pi_hex_first_digits: "pi_hex T st 0 = Some (Inr ''243F6A888'')"
  by (simp add: pi_hex_def bbpfCalc_def bbpf16jsd_def left_portion_zero right_portion_zero
      combine_zero toHex_zero)

subsection \<open>C4: the chunk evaluator\<close>

text \<open>
  Claim C4 says that for every chunk start \<open>k0\<close>, chunk size \<open>c\<close> and digit
  position \<open>d\<close> with \<open>k0 + c \<le> d\<close> the chunk evaluator returns the sum of the
  terms \<open>(16 ^ (d - k) mod (8 k + j)) / (8 k + j)\<close>, reduced modulo 1 after every
  addition. This fails once a denominator exceeds 94906265, the largest integer whose
  square is below \<open>2 ^ 53\<close>: for the one-term chunk at \<open>k0 = 11868649\<close> of series 1
  and \<open>d = 11868669\<close> the denominator is 94949193, the doubles of \<open>expoMod\<close> are no
  longer exact, the numerator comes out as 73238544 where \<open>16 ^ 20 mod 94949193\<close> is
  73238545, and the value returned differs from the sum.
\<close>

theorem chunk_beyond_precision_counterexample:
  "leftPortionThreaded 1 (fresh_state 64) 11868649 1 11868669
     = Inr (built_state 64 5, 868456774212809 / 1125899906842624)
   \<and> chunk_sum_spec 1 11868649 1 11868669 0 = 6947654288565829 / 9007199254740992"
  by (simp add: leftPortionThreaded_def lpt_loop_eval expoMod_eval spec_term_def frac1_def
      cong: ebind_weak_cong)

text \<open>
  C4 as amended: for every chunk start \<open>k0 \<ge> 0\<close>, chunk size \<open>c \<ge> 1\<close>, series
  index \<open>j\<close> among 1, 4, 5, 6 and digit position \<open>d\<close> with \<open>k0 + c \<le> d\<close>, where
  the largest denominator \<open>8 (k0 + c - 1) + j\<close> is at most 94906265 and the largest
  exponent \<open>d - k0\<close> at most \<open>2 ^ 30\<close>, the chunk evaluator, called first in the
  process or on a table that reaches \<open>d - k0\<close>, returns the sum of the terms with the
  exact residues as numerators, accumulated in double arithmetic and reduced modulo 1
  after every addition; the value lies between 0 (included) and 1 (excluded).
\<close>

theorem leftPortionThreaded_chunk_sum:
  assumes "0 \<le> k0" "1 \<le> c" "j \<in> {1, 4, 5, 6}" "k0 + c \<le> d"
    and "8 * (k0 + c - 1) + j \<le> 94906265" "d - k0 \<le> 2 ^ 30"
  shows "(30 < len \<longrightarrow>
           leftPortionThreaded c (fresh_state len) k0 j d
             = Inr (built_state len (tbl_top (of_int (d - k0))), chunk_sum_spec (nat c) k0 j d 0))
       \<and> (h < len \<and> h \<le> 30 \<and> d - k0 \<le> 2 ^ h \<longrightarrow>
           leftPortionThreaded c (built_state len h) k0 j d
             = Inr (built_state len h, chunk_sum_spec (nat c) k0 j d 0))
       \<and> 0 \<le> chunk_sum_spec (nat c) k0 j d 0 \<and> chunk_sum_spec (nat c) k0 j d 0 < 1"
proof -
  have j: "1 \<le> j" using assms(3) by auto
  have c0: "0 \<le> c" using assms(2) by simp
  show ?thesis
    using leftPortionThreaded_fresh_spec[OF _ j assms(1,2,4,5,6), of len]
      leftPortionThreaded_built_spec[OF _ _ j assms(1) c0 assms(4,5), of h len]
      chunk_sum_spec_bounds[of 0 "nat c" k0 j d]
    by simp
qed

theorem leftPortionThreaded_chunk_sum_witness:
  "(0::int) \<le> 3 \<and> (1::int) \<le> 2 \<and> (4::int) \<in> {1, 4, 5, 6} \<and> (3::int) + 2 \<le> 100
   \<and> (8::int) * (3 + 2 - 1) + 4 \<le> 94906265 \<and> (100::int) - 3 \<le> 2 ^ 30
   \<and> leftPortionThreaded 2 (fresh_state 64) 3 4 100
         = Inr (built_state 64 7, chunk_sum_spec 2 3 4 100 0)
   \<and> leftPortionThreaded 2 (built_state 32 7) 3 4 100
         = Inr (built_state 32 7, chunk_sum_spec 2 3 4 100 0)
   \<and> 0 \<le> chunk_sum_spec 2 3 4 100 0 \<and> chunk_sum_spec 2 3 4 100 0 < 1"
proof -
  have a: "(0::int) \<le> 3" "(1::int) \<le> 2" "(4::int) \<in> {1, 4, 5, 6}" "(3::int) + 2 \<le> 100"
    "(8::int) * (3 + 2 - 1) + 4 \<le> 94906265" "(100::int) - 3 \<le> 2 ^ 30" by simp_all
  have t: "tbl_top 97 = 7" by (simp add: expoMod_eval)
  from leftPortionThreaded_chunk_sum[OF a, where len = 64 and h = 7]
    leftPortionThreaded_chunk_sum[OF a, where len = 32 and h = 7] t
  show ?thesis by simp
qed

subsection \<open>C5: the right portion stops early\<close>

text \<open>
  Claim C5 says that for every digit position \<open>d \<ge> 0\<close> the right-portion loop leaves
  through its \<open>break\<close> before the bound \<open>d + 100\<close>, and that the first term it drops
  is below \<open>1e-17\<close>. The denominator \<open>8 * k + j\<close> is computed in \<open>int\<close>: for
  \<open>d = 268435449\<close> the terms of the indices \<open>d\<close> to \<open>d + 6\<close> are still added, and at
  \<open>k = d + 7 = 2 ^ 28\<close> the product \<open>8 * k\<close> exceeds the largest \<open>int\<close> before any
  term has been dropped.
\<close>

theorem right_portion_overflow_counterexample:
  "right_portion 1 268435449 268435449 0 = Inl IntOverflow"
  by (simp add: right_eval cong: ebind_weak_cong)

text \<open>
  C5 as amended: for every digit position \<open>d\<close> from 0 to 268435448, series index
  \<open>j\<close> among 1, 4, 5, 6 and accumulator between 0 and 1, the loop returns through its
  \<open>break\<close> at an index \<open>kb\<close> with \<open>d < kb \<le> d + 13\<close>, well before the bound
  \<open>d + 100\<close>. The term at \<open>kb\<close>, the first one dropped, is below the double
  \<open>1e-17\<close>; every term before it is at least \<open>1e-17\<close> and has been added (the
  value returned is the sum of exactly these terms, reduced modulo 1 after each
  addition); every later term is below \<open>1e-17\<close> as well.
\<close>

theorem right_portion_early_exit:
  assumes "0 \<le> d" "d \<le> 268435448" "j \<in> {1, 4, 5, 6}" "0 \<le> s" "s < 1"
  shows "\<exists>kb. right_portion j d d s = Inr (tail_sum_spec (nat (kb - d)) j d d s, kb)
          \<and> d < kb \<and> kb \<le> d + 13 \<and> right_term j d kb < c_1e17
          \<and> (\<forall>i. d \<le> i \<and> i < kb \<longrightarrow> c_1e17 \<le> right_term j d i)
          \<and> (\<forall>i. kb \<le> i \<longrightarrow> right_term j d i < c_1e17)"
proof -
  have j: "1 \<le> j" "j \<le> 6" using assms(3) by auto
  define K where "K = (if 67108864 \<le> d then d + 7 else d + 13)"
  have K: "K \<le> d + 100" "K \<le> d + 13" "d \<le> K" "8 * K + j \<le> 2147483647"
    using assms(1,2) j by (auto simp: K_def)
  have small: "right_term j d K < c_1e17"
    using right_term_13[OF assms(1) j(1)] right_term_7[OF _ j(1), of d] by (auto simp: K_def)
  obtain kb where kb:
    "right_portion j d d s = Inr (tail_sum_spec (nat (kb - d)) j d d s, kb)"
    "d \<le> kb" "kb \<le> K" "right_term j d kb < c_1e17"
    "\<forall>i. d \<le> i \<and> i < kb \<longrightarrow> c_1e17 \<le> right_term j d i"
    using right_loop[OF assms(1,2) j(1) K(1,4) small refl _ K(3) assms(4,5)] by auto
  have first: "c_1e17 \<le> right_term j d d"
    using assms(1,2) j by (intro right_term_first) simp_all
  then have "kb \<noteq> d" using kb(4) by auto
  then have lt: "d < kb" using kb(2) by simp
  have later: "\<forall>i. kb \<le> i \<longrightarrow> right_term j d i < c_1e17"
  proof (intro allI impI)
    fix i assume "kb \<le> i"
    moreover have "1 \<le> 8 * kb + j" using lt assms(1) j by simp
    ultimately have "right_term j d i \<le> right_term j d kb" by (intro right_term_mono)
    then show "right_term j d i < c_1e17" using kb(4) by simp
  qed
  show ?thesis
    using kb(1,4,5) lt kb(3) K(2) later by (intro exI[of _ kb]) simp
qed

theorem right_portion_early_exit_witness:
  "(0::int) \<le> 0 \<and> (0::int) \<le> 268435448 \<and> (1::int) \<in> {1, 4, 5, 6} \<and> (0::real) \<le> 0 \<and> (0::real) < 1
   \<and> right_portion 1 0 0 0 = Inr (4141568678910459 / 576460752303423488, 13)
   \<and> (\<exists>kb. right_portion 1 0 0 0 = Inr (tail_sum_spec (nat (kb - 0)) 1 0 0 0, kb)
          \<and> 0 < kb \<and> kb \<le> 0 + 13 \<and> right_term 1 0 kb < c_1e17)"
proof -
  have a: "(0::int) \<le> 0" "(0::int) \<le> 268435448" "(1::int) \<in> {1, 4, 5, 6}" "(0::real) \<le> 0" "(0::real) < 1"
    by simp_all
  have e: "right_portion 1 0 0 0 = Inr (4141568678910459 / 576460752303423488, 13)"
    by (simp add: right_eval cong: ebind_weak_cong)
  from right_portion_early_exit[OF a]
  have ex: "\<exists>kb. right_portion 1 0 0 0 = Inr (tail_sum_spec (nat (kb - 0)) 1 0 0 0, kb)
          \<and> 0 < kb \<and> kb \<le> 0 + 13 \<and> right_term 1 0 kb < c_1e17" by blast
  show ?thesis by (intro conjI a e ex)
qed

subsection \<open>C6: the table of powers of two is built once\<close>

text \<open>
  Claim C6 says that the table always covers the largest exponent requested so far and
  that it grows with the maximum over all calls. The code builds the table in the first
  call only: after a first call with exponent 1 the table holds the single power 1, and a
  second call with exponent 20 does not extend it but reads past its end.
\<close>

theorem table_not_regrown_counterexample:
  "expoMod_calls (fresh_state 64) [(1, 7)] = Inr (built_state 64 0, [2])
   \<and> expoMod_calls (fresh_state 64) [(1, 7), (20, 7)] = Inl OutOfBounds"
  by (simp add: expoMod_eval cong: ebind_weak_cong)

text \<open>
  C6 as amended: the table is built lazily by the first call, for that call's exponent
  (at most \<open>2 ^ 30\<close>), and no later call changes it. Whenever a sequence of calls in
  one process returns, the final state is the one the first call built, and every
  exponent of the sequence lay between 1 and the largest entry of that table.
\<close>

theorem table_built_by_first_call_only:
  assumes "n0 \<le> 2 ^ 30" "30 < len"
    and "expoMod_calls (fresh_state len) ((n0, k0) # cs) = Inr (st, rs)"
  shows "st = built_state len (tbl_top n0)
       \<and> (\<forall>(n, k)\<in>set ((n0, k0) # cs). 1 \<le> n \<and> n \<le> 2 ^ tbl_top n0)"
proof -
  have t: "tbl_top n0 \<le> 30" using assms(1) by (simp only: tbl_top_le_iff)
  then have l: "tbl_top n0 < len" using assms(2) by simp
  from assms(3)
  have "expoMod_calls (built_state len (tbl_top n0)) ((n0, k0) # cs) = Inr (st, rs)"
    by (simp add: expoMod_fresh[OF t l])
  then show ?thesis by (rule expoMod_calls_built[OF l])
qed

theorem table_built_by_first_call_only_witness:
  "(5::real) \<le> 2 ^ 30 \<and> (30::nat) < 64
   \<and> expoMod_calls (fresh_state 64) [(5, 7), (3, 7)] = Inr (built_state 64 3, [4, 1])
   \<and> (1::real) \<le> 3 \<and> (3::real) \<le> 2 ^ tbl_top 5"
proof -
  have e: "expoMod_calls (fresh_state 64) [(5, 7), (3, 7)] = Inr (built_state 64 3, [4, 1])"
    by (simp add: expoMod_eval cong: ebind_weak_cong)
  from table_built_by_first_call_only[OF _ _ e]
  show ?thesis using e by simp
qed

subsection \<open>C7: the accumulators stay between 0 and 1\<close>




subsection \<open>C8: two runs of the same computation\<close>

text \<open>
  Claim C8 says that two runs with the same digit position and the same number of worker
  threads produce identical sums and identical output. With a single worker, or once the
  table of \<open>expoMod\<close> is initialised, a run is the function modelled here and two
  runs agree. But the first batch of a run is started on the uninitialised table whenever
  \<open>100000 T < d\<close>, and all its workers execute the unsynchronised initialisation
  of the statics of \<open>expoMod\<close>. For the program arguments 200002 and 2 (digit
  position 200001, two workers) the first batch is a data race: what the run does is not
  determined by its inputs.
\<close>

theorem first_batch_data_race:
  "bbpf16jsd 2 (fresh_state 64) 1 200001 = Some (Inl DataRace)
   \<and> pi_hex 2 (fresh_state 64) 200001 = Some (Inl DataRace)"
proof -
  have "bbpf16jsd 2 (fresh_state 64) 1 200001 = Some (Inl DataRace)"
    by (subst bbpf16jsd_def, subst left_portion.simps) (simp add: left_body_def data_race_def)
  then show ?thesis by (simp add: pi_hex_def bbpfCalc_def)
qed

subsection \<open>C9: which calls read the table in bounds\<close>




subsection \<open>C10: termination of bbpf16jsd\<close>

text \<open>
  Claim C10 says that \<open>bbpf16jsd\<close> terminates for every digit position
  \<open>d \<ge> 0\<close> and every number of worker threads \<open>T \<ge> 1\<close>, and that it runs
  forever for \<open>T = 0\<close> and \<open>d > 0\<close>. The digit position is an \<open>int\<close>
  and so is the denominator \<open>8 * k + j\<close>: for \<open>d = 268435456\<close> the first
  iteration of the right portion overflows, the behaviour is undefined, and no value is
  returned. The worker count enters the test of the left loop as an unsigned product: with
  42950 workers it wraps around, for \<open>d = 40000\<close> a batch is started whose first
  worker runs past \<open>d\<close> and reads outside the table, and again no value is returned.
\<close>

theorem bbpf16jsd_overflow_counterexample:
  "\<not> returns_value (bbpf16jsd 1 (fresh_state 64) 1 268435456)
   \<and> \<not> returns_value (bbpf16jsd 42950 (built_state 64 16) 1 40000)"
proof -
  have "\<not> returns_value (bbpf16jsd 1 (fresh_state 64) 1 268435456)"
    by (rule bbpf16jsd_no_value) simp
  moreover have "bbpf16jsd 42950 (built_state 64 16) 1 40000 = Some (Inl OutOfBounds)"
    by (rule wrapped_batch) simp_all
  then have "\<not> returns_value (bbpf16jsd 42950 (built_state 64 16) 1 40000)"
    by (simp add: returns_value_def)
  ultimately show ?thesis by (rule conjI)
qed

text \<open>
  C10 as amended: let \<open>j\<close> be one of 1, 4, 5, 6, let the digit position satisfy
  \<open>0 \<le> d\<close> and \<open>8 (d - 1) + j \<le> 2147479549\<close> (that is
  \<open>d \<le> 268434943\<close>), and let \<open>1 \<le> T\<close> and \<open>100000 T + d \<le> 2 ^ 32\<close>.
  Then \<open>bbpf16jsd\<close> terminates with a value, on a table that reaches \<open>d\<close> and
  as the first call of the process when no batch of two or more workers is started on the
  uninitialised table (\<open>T = 1\<close> or \<open>d \<le> 100000 T\<close>). Started at
  any \<open>k\<close> with \<open>0 \<le> k < d\<close> and any running sum strictly between
  \<open>-1\<close> and 1, an iteration of the left loop completes, moves \<open>k\<close> to
  \<open>k + 100000 T\<close> in the parallel branch and to \<open>k + 1\<close> in the
  sequential branch, never beyond \<open>d\<close>, and leaves a running sum strictly between
  \<open>-1\<close> and 1; from such a sum the right portion completes and leaves its loop
  at an index between \<open>d + 1\<close> and \<open>d + 13\<close>. For every digit position
  and \<open>1 \<le> T\<close> the loops come to an end, with a value or at undefined
  behaviour. For \<open>T = 0\<close> and \<open>1 \<le> d\<close> the left loop never ends.
\<close>

theorem bbpf16jsd_terminates:
  "(j \<in> {1, 4, 5, 6} \<and> 0 \<le> d \<and> 8 * (d - 1) + j \<le> 2147479549 \<and> 1 \<le> T
      \<and> 100000 * int T + d \<le> 2 ^ 32 \<longrightarrow>
      (h < len \<and> h \<le> 30 \<and> d \<le> 2 ^ h \<longrightarrow>
         (\<exists>s. bbpf16jsd T (built_state len h) j d = Some (Inr (built_state len h, s)))
       \<and> (\<forall>k s. 0 \<le> k \<and> k < d \<and> \<bar>s\<bar> < 1 \<longrightarrow>
            (\<exists>k1 s1. left_body T (built_state len h) j d k s = Inr (built_state len h, k1, s1)
               \<and> k1 = (if k + 100000 * int T < d then k + 100000 * int T else k + 1)
               \<and> k < k1 \<and> k1 \<le> d \<and> \<bar>s1\<bar> < 1)))
    \<and> (30 < len \<and> (T = 1 \<or> d \<le> 100000 * int T) \<longrightarrow>
         (\<exists>st s. bbpf16jsd T (fresh_state len) j d = Some (Inr (st, s))))
    \<and> (\<forall>s. \<bar>s\<bar> < 1 \<longrightarrow>
         (\<exists>s' kb. right_portion j d d s = Inr (s', kb) \<and> d < kb \<and> kb \<le> d + 13 \<and> \<bar>s'\<bar> < 1)))
   \<and> (1 \<le> T \<longrightarrow> (\<exists>r. bbpf16jsd T st j d = Some r))
   \<and> (1 \<le> d \<and> d \<le> 2147483647 \<longrightarrow> bbpf16jsd 0 st j d = None)"
proof -
  have reg: "(h < len \<and> h \<le> 30 \<and> d \<le> 2 ^ h \<longrightarrow>
         (\<exists>s. bbpf16jsd T (built_state len h) j d = Some (Inr (built_state len h, s)))
       \<and> (\<forall>k s. 0 \<le> k \<and> k < d \<and> \<bar>s\<bar> < 1 \<longrightarrow>
            (\<exists>k1 s1. left_body T (built_state len h) j d k s = Inr (built_state len h, k1, s1)
               \<and> k1 = (if k + 100000 * int T < d then k + 100000 * int T else k + 1)
               \<and> k < k1 \<and> k1 \<le> d \<and> \<bar>s1\<bar> < 1)))
    \<and> (30 < len \<and> (T = 1 \<or> d \<le> 100000 * int T) \<longrightarrow>
         (\<exists>st s. bbpf16jsd T (fresh_state len) j d = Some (Inr (st, s))))
    \<and> (\<forall>s. \<bar>s\<bar> < 1 \<longrightarrow>
         (\<exists>s' kb. right_portion j d d s = Inr (s', kb) \<and> d < kb \<and> kb \<le> d + 13 \<and> \<bar>s'\<bar> < 1))"
    if r: "j \<in> {1, 4, 5, 6}" "0 \<le> d" "8 * (d - 1) + j \<le> 2147479549" "1 \<le> T"
      "100000 * int T + d \<le> 2 ^ 32"
  proof -
    have j: "1 \<le> j" "j \<le> 6" using r(1) by auto
    have d: "d \<le> 268435448" using r(3) j by simp
    have T0: "0 < 100000 * int T" using r(4) by simp
    have built: "\<exists>s. bbpf16jsd T (built_state len h) j d = Some (Inr (built_state len h, s))"
      if "h < len" "h \<le> 30" "d \<le> 2 ^ h"
      using bbpf16jsd_total_built[OF that(1,2) r(1,3,4,5,2) that(3)] by blast
    have body: "\<exists>k1 s1. left_body T (built_state len h) j d k s = Inr (built_state len h, k1, s1)
               \<and> k1 = (if k + 100000 * int T < d then k + 100000 * int T else k + 1)
               \<and> k < k1 \<and> k1 \<le> d \<and> \<bar>s1\<bar> < 1"
      if "h < len" "h \<le> 30" "d \<le> 2 ^ h" "0 \<le> k" "k < d" "\<bar>s\<bar> < 1" for k s
    proof -
      have "d - k \<le> 2 ^ h" using that(3,4) by simp
      from left_body_total[OF that(1,2) j(1) r(3) that(4,5) this r(5) that(6)]
      obtain s1 where "left_body T (built_state len h) j d k s
            = Inr (built_state len h,
                   (if k + 100000 * int T < d then k + 100000 * int T else k + 1), s1)"
        "\<bar>s1\<bar> < 1" by blast
      moreover have "k < (if k + 100000 * int T < d then k + 100000 * int T else k + 1)"
        using T0 by simp
      moreover have "(if k + 100000 * int T < d then k + 100000 * int T else k + 1) \<le> d"
        using that(5) by simp
      ultimately show ?thesis by blast
    qed
    have fresh: "\<exists>st s. bbpf16jsd T (fresh_state len) j d = Some (Inr (st, s))"
      if "30 < len" "T = 1 \<or> d \<le> 100000 * int T"
      using bbpf16jsd_total_fresh[OF that(1) r(1,3,4,5,2) that(2)] by blast
    have right: "\<exists>s' kb. right_portion j d d s = Inr (s', kb) \<and> d < kb \<and> kb \<le> d + 13 \<and> \<bar>s'\<bar> < 1"
      if "\<bar>s\<bar> < 1" for s
      using right_portion_total[OF r(2) d j that] by blast
    show ?thesis using built body fresh right by blast
  qed
  have a: "\<exists>r. bbpf16jsd T st j d = Some r" if T1: "1 \<le> T"
  proof -
    obtain r where "left_portion T j d st 0 0 = Some r"
      using left_portion_terminates[OF T1] by blast
    then show ?thesis by (auto simp: bbpf16jsd_def split: sum.splits prod.splits)
  qed
  have b: "bbpf16jsd 0 st j d = None" if "1 \<le> d \<and> d \<le> 2147483647"
  proof (cases "left_portion 0 j d st 0 0")
    case None
    then show ?thesis by (simp add: bbpf16jsd_def)
  next
    case (Some r)
    from left_portion_diverges[OF Some] that show ?thesis by simp
  qed
  show ?thesis using reg a b by blast
qed

theorem bbpf16jsd_terminates_witness:
  "(1::int) \<in> {1, 4, 5, 6} \<and> (0::int) \<le> 200000000 \<and> (8::int) * (200000000 - 1) + 1 \<le> 2147479549
   \<and> (1::nat) \<le> 8 \<and> 100000 * int 8 + 200000000 \<le> 2 ^ 32
   \<and> (28::nat) < 64 \<and> (28::nat) \<le> 30 \<and> (200000000::int) \<le> 2 ^ 28
   \<and> (\<exists>s. bbpf16jsd 8 (built_state 64 28) 1 200000000 = Some (Inr (built_state 64 28, s)))
   \<and> (\<exists>s1. left_body 8 (built_state 64 28) 1 200000000 0 0 = Inr (built_state 64 28, 800000, s1))
   \<and> (\<exists>s1. left_body 8 (built_state 64 28) 1 200000000 199900000 (- (1/2))
          = Inr (built_state 64 28, 199900001, s1))
   \<and> (\<exists>st s. bbpf16jsd 1 (fresh_state 64) 1 200000000 = Some (Inr (st, s)))
   \<and> (\<exists>s' kb. right_portion 1 200000000 200000000 0 = Inr (s', kb)
          \<and> 200000000 < kb \<and> kb \<le> 200000000 + 13)
   \<and> bbpf16jsd 0 (fresh_state 64) 1 200000000 = None"
proof -
  have a: "(1::int) \<in> {1, 4, 5, 6} \<and> (0::int) \<le> 200000000
     \<and> (8::int) * (200000000 - 1) + 1 \<le> 2147479549
     \<and> (1::nat) \<le> 8 \<and> 100000 * int 8 + 200000000 \<le> 2 ^ 32" by simp
  have a1: "(1::int) \<in> {1, 4, 5, 6} \<and> (0::int) \<le> 200000000
     \<and> (8::int) * (200000000 - 1) + 1 \<le> 2147479549
     \<and> (1::nat) \<le> 1 \<and> 100000 * int 1 + 200000000 \<le> 2 ^ 32" by simp
  have b: "(28::nat) < 64 \<and> (28::nat) \<le> 30 \<and> (200000000::int) \<le> 2 ^ 28" by simp
  have c: "(30::nat) < 64 \<and> ((1::nat) = 1 \<or> (200000000::int) \<le> 100000 * int 1)" by simp
  have z: "(1::int) \<le> 200000000 \<and> (200000000::int) \<le> 2147483647" by simp
  note th = bbpf16jsd_terminates[where j = 1 and d = 200000000 and T = 8 and h = 28 and len = 64
      and st = "fresh_state 64"]
  note th1 = bbpf16jsd_terminates[where j = 1 and d = 200000000 and T = 1 and h = 28 and len = 64
      and st = "fresh_state 64"]
  have p1: "\<exists>s. bbpf16jsd 8 (built_state 64 28) 1 200000000 = Some (Inr (built_state 64 28, s))"
    using th a b by blast
  have e: "\<forall>k s. 0 \<le> k \<and> k < 200000000 \<and> \<bar>s\<bar> < 1 \<longrightarrow>
            (\<exists>k1 s1. left_body 8 (built_state 64 28) 1 200000000 k s = Inr (built_state 64 28, k1, s1)
               \<and> k1 = (if k + 100000 * int 8 < 200000000 then k + 100000 * int 8 else k + 1)
               \<and> k < k1 \<and> k1 \<le> 200000000 \<and> \<bar>s1\<bar> < 1)"
    using th a b by blast
  have p2: "\<exists>s1. left_body 8 (built_state 64 28) 1 200000000 0 0 = Inr (built_state 64 28, 800000, s1)"
    using e[rule_format, of 0 0] by auto
  have p3: "\<exists>s1. left_body 8 (built_state 64 28) 1 200000000 199900000 (- (1/2))
          = Inr (built_state 64 28, 199900001, s1)"
    using e[rule_format, of 199900000 "- (1/2)"] by auto
  have p4: "\<exists>st s. bbpf16jsd 1 (fresh_state 64) 1 200000000 = Some (Inr (st, s))"
    using th1 a1 c by blast
  have f: "\<forall>s. \<bar>s\<bar> < 1 \<longrightarrow>
         (\<exists>s' kb. right_portion 1 200000000 200000000 s = Inr (s', kb)
            \<and> 200000000 < kb \<and> kb \<le> 200000000 + 13 \<and> \<bar>s'\<bar> < 1)"
    using th a by blast
  have p5: "\<exists>s' kb. right_portion 1 200000000 200000000 0 = Inr (s', kb)
          \<and> 200000000 < kb \<and> kb \<le> 200000000 + 13"
    using f[rule_format, of 0] by auto
  have p6: "bbpf16jsd 0 (fresh_state 64) 1 200000000 = None"
    using th z by blast
  show ?thesis using a b p1 p2 p3 p4 p5 p6 by (intro conjI) simp_all
qed

end
